theory Spec2Isabelle
  imports Main
begin

section \<open>JavaScript strings\<close>

text \<open>
  A JavaScript string is a sequence of UTF-16 code units; \<open>length\<close> counts code units.
  A code unit is modelled as a natural number, a string as a list of them. ASCII text is
  written with \<open>ascii\<close>, other text with its code units.
\<close>

type_synonym jchar = nat
type_synonym jstring = "jchar list"

definition ascii :: "string \<Rightarrow> jstring" where
  "ascii s = map of_char s"

datatype failure = TypeError | NonTermination

text \<open>ECMAScript LineTerminator, WhiteSpace, and the classes \<open>\s \d \w . [A-Za-z]\<close>.\<close>

definition is_line_term :: "jchar \<Rightarrow> bool" where
  "is_line_term c = (c = 10 \<or> c = 13 \<or> c = 8232 \<or> c = 8233)"

definition is_space :: "jchar \<Rightarrow> bool" where
  "is_space c = (c = 9 \<or> c = 10 \<or> c = 11 \<or> c = 12 \<or> c = 13 \<or> c = 32 \<or> c = 160
     \<or> c = 5760 \<or> (8192 \<le> c \<and> c \<le> 8202) \<or> c = 8232 \<or> c = 8233 \<or> c = 8239
     \<or> c = 8287 \<or> c = 12288 \<or> c = 65279)"

definition is_digit :: "jchar \<Rightarrow> bool" where
  "is_digit c = (48 \<le> c \<and> c \<le> 57)"

definition is_alpha :: "jchar \<Rightarrow> bool" where
  "is_alpha c = ((65 \<le> c \<and> c \<le> 90) \<or> (97 \<le> c \<and> c \<le> 122))"

definition is_word :: "jchar \<Rightarrow> bool" where
  "is_word c = (is_digit c \<or> is_alpha c \<or> c = 95)"

definition is_dot :: "jchar \<Rightarrow> bool" where
  "is_dot c = (\<not> is_line_term c)"

definition is_any :: "jchar \<Rightarrow> bool" where
  "is_any c = True"

text \<open>
  Canonicalisation under the \<open>i\<close> flag (without \<open>u\<close>): a code unit is upper-cased, but
  never from outside ASCII into ASCII. Every literal and class of the patterns below that
  is matched under \<open>i\<close> is ASCII or has no case, so upper-casing \<open>a-z\<close> is all that can
  make two code units equal.
\<close>

definition canon :: "jchar \<Rightarrow> jchar" where
  "canon c = (if 97 \<le> c \<and> c \<le> 122 then c - 32 else c)"

text \<open>\<open>String.prototype.trim\<close>: strips WhiteSpace and LineTerminator from both ends.\<close>

definition js_trim :: "jstring \<Rightarrow> jstring" where
  "js_trim s = rev (dropWhile is_space (rev (dropWhile is_space s)))"

section \<open>Regular expressions with backtracking priority\<close>

datatype regex =
    Eps
  | Chr "jchar \<Rightarrow> bool"
  | Seq regex regex
  | Alt regex regex
  | Opt regex
  | Star regex
  | LazyStar regex
  | Bol bool
  | Eol bool
  | WordB
  | Look regex
  | Group nat regex

text \<open>
  A matcher state: the code unit before the current position (\<open>None\<close> at the start of
  the input), the input from the current position on, and the captures made so far
  (the latest first).
\<close>

type_synonym captures = "(nat \<times> jstring) list"
type_synonym mstate = "jchar option \<times> jstring \<times> captures"

fun advances :: "mstate \<Rightarrow> mstate \<Rightarrow> bool" where
  "advances (p, xs, c) (p', ys, c') = (length ys < length xs)"

fun at_word :: "jchar option \<Rightarrow> bool" where
  "at_word None = False"
| "at_word (Some c) = is_word c"

text \<open>
  \<open>rmatch r st\<close> lists the states in which a match of \<open>r\<close> begun in \<open>st\<close> can end, in the
  order in which a backtracking matcher tries them: the head is the match the engine
  reports. A greedy quantifier tries another iteration first, a lazy one tries to stop
  first; an iteration that consumes nothing is rejected, as ECMAScript's RepeatMatcher
  does. \<open>Bol m\<close> and \<open>Eol m\<close> are \<open>^\<close> and \<open>$\<close>, with \<open>m\<close> the multiline flag.
\<close>

function (sequential) rmatch :: "regex \<Rightarrow> mstate \<Rightarrow> mstate list" where
  "rmatch Eps st = [st]"
| "rmatch (Chr P) (prev, [], caps) = []"
| "rmatch (Chr P) (prev, c # cs, caps) = (if P c then [(Some c, cs, caps)] else [])"
| "rmatch (Seq r1 r2) st = concat (map (rmatch r2) (rmatch r1 st))"
| "rmatch (Alt r1 r2) st = rmatch r1 st @ rmatch r2 st"
| "rmatch (Opt r) st = filter (advances st) (rmatch r st) @ [st]"
| "rmatch (Star r) st =
     concat (map (rmatch (Star r)) (filter (advances st) (rmatch r st))) @ [st]"
| "rmatch (LazyStar r) st =
     st # concat (map (rmatch (LazyStar r)) (filter (advances st) (rmatch r st)))"
| "rmatch (Bol m) (prev, xs, caps) =
     (case prev of None \<Rightarrow> [(prev, xs, caps)]
      | Some c \<Rightarrow> if m \<and> is_line_term c then [(prev, xs, caps)] else [])"
| "rmatch (Eol m) (prev, xs, caps) =
     (case xs of [] \<Rightarrow> [(prev, xs, caps)]
      | c # _ \<Rightarrow> if m \<and> is_line_term c then [(prev, xs, caps)] else [])"
| "rmatch WordB (prev, xs, caps) =
     (if at_word prev \<noteq> at_word (case xs of [] \<Rightarrow> None | c # _ \<Rightarrow> Some c)
      then [(prev, xs, caps)] else [])"
| "rmatch (Look r) st = (case rmatch r st of [] \<Rightarrow> [] | _ # _ \<Rightarrow> [st])"
| "rmatch (Group k r) (prev, xs, caps) =
     map (\<lambda>(p', ys, caps'). (p', ys, (k, take (length xs - length ys) xs) # caps'))
         (rmatch r (prev, xs, caps))"
  by pat_completeness auto
termination
  by (relation "inv_image (measure size <*lex*> measure length) (\<lambda>(r, (p, xs, c)). (r, xs))")
     auto

text \<open>Pattern syntax: literals, classes, \<open>+\<close>, \<open>+?\<close> and sequences.\<close>

definition chr :: "jchar \<Rightarrow> regex" where
  "chr a = Chr (\<lambda>c. c = a)"

definition chri :: "jchar \<Rightarrow> regex" where
  "chri a = Chr (\<lambda>c. canon c = canon a)"

definition ac :: "char \<Rightarrow> regex" where
  "ac a = chr (of_char a)"

fun str :: "jstring \<Rightarrow> regex" where
  "str [] = Eps"
| "str (a # as) = Seq (chr a) (str as)"

fun stri :: "jstring \<Rightarrow> regex" where
  "stri [] = Eps"
| "stri (a # as) = Seq (chri a) (stri as)"

definition Plus :: "regex \<Rightarrow> regex" where
  "Plus r = Seq r (Star r)"

definition LazyPlus :: "regex \<Rightarrow> regex" where
  "LazyPlus r = Seq r (LazyStar r)"

fun seqs :: "regex list \<Rightarrow> regex" where
  "seqs [] = Eps"
| "seqs (r # rs) = Seq r (seqs rs)"

abbreviation sp :: regex where "sp \<equiv> Chr is_space"
abbreviation dg :: regex where "dg \<equiv> Chr is_digit"
abbreviation al :: regex where "al \<equiv> Chr is_alpha"
abbreviation dot :: regex where "dot \<equiv> Chr is_dot"
abbreviation anyc :: regex where "anyc \<equiv> Chr is_any"

text \<open>\<open>\d+[A-Za-z]*\<close>, the provision number of most patterns.\<close>

definition numsuf :: regex where
  "numsuf = Seq (Plus dg) (Star al)"

section \<open>The RegExp and String methods the code uses\<close>

text \<open>
  \<open>search\<close> is one \<open>exec\<close>/\<open>match\<close>/\<open>test\<close> from a position: the leftmost start at
  which the pattern matches, as the number of code units skipped, with the end state.
\<close>

fun search :: "regex \<Rightarrow> jchar option \<Rightarrow> jstring \<Rightarrow> (nat \<times> mstate) option" where
  "search r prev [] =
     (case rmatch r (prev, [], []) of [] \<Rightarrow> None | st # _ \<Rightarrow> Some (0, st))"
| "search r prev (c # cs) =
     (case rmatch r (prev, c # cs, []) of
        [] \<Rightarrow> map_option (\<lambda>(k, st). (Suc k, st)) (search r (Some c) cs)
      | st # _ \<Rightarrow> Some (0, st))"

definition js_match :: "regex \<Rightarrow> jstring \<Rightarrow> captures option" where
  "js_match r s = map_option (\<lambda>(k, (p, rest, caps)). caps) (search r None s)"

definition js_test :: "regex \<Rightarrow> jstring \<Rightarrow> bool" where
  "js_test r s = (search r None s \<noteq> None)"

text \<open>
  \<open>while ((m = re.exec(s)) !== null)\<close> with the \<open>g\<close> flag: every match from left to
  right, each as its start index and captures. \<open>lastIndex\<close> becomes the end of the match,
  so a match of the empty string is found again for ever: the loop does not return.
\<close>

function exec_all ::
  "regex \<Rightarrow> nat \<Rightarrow> jchar option \<Rightarrow> jstring \<Rightarrow> failure + (nat \<times> captures) list" where
  "exec_all r off prev xs =
     (case search r prev xs of
        None \<Rightarrow> Inr []
      | Some (k, (prev', rest, caps)) \<Rightarrow>
          if length rest < length xs - k
          then (case exec_all r (off + (length xs - length rest)) prev' rest of
                  Inl e \<Rightarrow> Inl e
                | Inr ms \<Rightarrow> Inr ((off + k, caps) # ms))
          else Inl NonTermination)"
  by pat_completeness auto
termination
  by (relation "measure (\<lambda>(r, off, prev, xs). length xs)") auto

text \<open>
  \<open>s.replace(re, rep)\<close> with the \<open>g\<close> flag, for a replacement without \<open>$\<close>: every match is
  replaced; after an empty match the next code unit is copied and the scan goes on
  behind it.
\<close>

function replace_from :: "regex \<Rightarrow> jstring \<Rightarrow> jchar option \<Rightarrow> jstring \<Rightarrow> jstring" where
  "replace_from r rep prev [] =
     (case rmatch r (prev, [], []) of [] \<Rightarrow> [] | _ # _ \<Rightarrow> rep)"
| "replace_from r rep prev (c # cs) =
     (case rmatch r (prev, c # cs, []) of
        [] \<Rightarrow> c # replace_from r rep (Some c) cs
      | (prev', rest, caps) # _ \<Rightarrow>
          if length rest < length (c # cs)
          then rep @ replace_from r rep prev' rest
          else rep @ c # replace_from r rep (Some c) cs)"
  by pat_completeness auto
termination
  by (relation "measure (\<lambda>(r, rep, prev, xs). length xs)") auto

definition replace_all :: "regex \<Rightarrow> jstring \<Rightarrow> jstring \<Rightarrow> jstring" where
  "replace_all r rep s = replace_from r rep None s"

text \<open>\<open>s.replace(re, rep)\<close> without the \<open>g\<close> flag: the first match only.\<close>

definition replace_first :: "regex \<Rightarrow> jstring \<Rightarrow> jstring \<Rightarrow> jstring" where
  "replace_first r rep s =
     (case search r None s of
        None \<Rightarrow> s
      | Some (k, (p, rest, caps)) \<Rightarrow> take k s @ rep @ rest)"

section \<open>The text normalizer\<close>

text \<open>\<open>stripHtml\<close> of \<open>scripts/lib/fetcher.ts\<close>: nineteen steps, in the source's order.\<close>

definition re_br :: regex where
  "re_br = seqs [ac CHR ''<'', stri (ascii ''br''), Star sp, Opt (ac CHR ''/''), ac CHR ''>'']"

definition re_tag :: regex where
  "re_tag = seqs [ac CHR ''<'', Plus (Chr (\<lambda>c. c \<noteq> of_char CHR ''>'')), ac CHR ''>'']"

definition re_sptab :: regex where
  "re_sptab = Plus (Chr (\<lambda>c. c = 32 \<or> c = 9))"

definition re_blank :: regex where
  "re_blank = seqs [chr 10, Star sp, chr 10]"

definition re_edges :: regex where
  "re_edges = Alt (Seq (Bol True) (Plus sp)) (Seq (Plus sp) (Eol True))"

definition stripHtml :: "jstring \<Rightarrow> jstring" where
  "stripHtml html =
     js_trim
    (replace_all re_edges []
    (replace_all re_blank [10]
    (replace_all re_sptab [32]
    (replace_all (chr 8203) []
    (replace_all (str (ascii ''&#8221;'')) [8221]
    (replace_all (str (ascii ''&#8220;'')) [8220]
    (replace_all (str (ascii ''&#8217;'')) [8217]
    (replace_all (str (ascii ''&#8212;'')) [8212]
    (replace_all (str (ascii ''&#39;'')) [39]
    (replace_all (str (ascii ''&quot;'')) [34]
    (replace_all (str (ascii ''&gt;'')) [62]
    (replace_all (str (ascii ''&lt;'')) [60]
    (replace_all (str (ascii ''&amp;'')) [38]
    (replace_all (str (ascii ''&#160;'')) [32]
    (replace_all (str (ascii ''&#xA0;'')) [32]
    (replace_all (str (ascii ''&nbsp;'')) [32]
    (replace_all re_tag [32]
    (replace_all re_br [10] html))))))))))))))))))"

section \<open>Citations\<close>

text \<open>Helpers for match arrays, \<open>??\<close>, template literals and \<open>split\<close>.\<close>

fun alts :: "regex list \<Rightarrow> regex" where
  "alts [] = Eps"
| "alts [r] = r"
| "alts (r # rs) = Alt r (alts rs)"

definition opt_grp :: "captures option \<Rightarrow> nat \<Rightarrow> jstring option" where
  "opt_grp m k = (case m of None \<Rightarrow> None | Some caps \<Rightarrow> map_of caps k)"

definition or_else :: "'a option \<Rightarrow> 'a option \<Rightarrow> 'a option" where
  "or_else a b = (case a of Some x \<Rightarrow> Some x | None \<Rightarrow> b)"

definition js_str :: "jstring option \<Rightarrow> jstring" where
  "js_str v = (case v of None \<Rightarrow> ascii ''undefined'' | Some s \<Rightarrow> s)"

definition bind :: "failure + 'a \<Rightarrow> ('a \<Rightarrow> failure + 'b) \<Rightarrow> failure + 'b" where
  "bind x f = (case x of Inl e \<Rightarrow> Inl e | Inr v \<Rightarrow> f v)"

text \<open>A method call on a capture: a \<open>TypeError\<close> when the group did not take part.\<close>

definition grp :: "captures \<Rightarrow> nat \<Rightarrow> failure + jstring" where
  "grp caps k = (case map_of caps k of None \<Rightarrow> Inl TypeError | Some s \<Rightarrow> Inr s)"

definition madda :: jstring where
  "madda = [1575, 1604, 1605, 1575, 1583, 1577]"

definition comma_semi :: regex where
  "comma_semi = Chr (\<lambda>c. c = of_char CHR '','' \<or> c = of_char CHR '';'')"

subsection \<open>\<open>parseCitation\<close>\<close>

record citation =
  documentRef :: jstring
  articleRef :: "jstring option"

definition arabicPat :: regex where
  "arabicPat = seqs [Bol False, str madda, Plus sp, Group 1 numsuf, Plus sp,
     Opt (Seq (str [1605, 1606]) (Plus sp)), Group 2 (Plus dot), Eol False]"

definition artFirstPat :: regex where
  "artFirstPat = seqs [Bol False,
     Alt (stri (ascii ''Article'')) (Seq (stri (ascii ''Art'')) (Opt (ac CHR ''.''))),
     Star sp, Group 1 numsuf, Star sp, Opt comma_semi, Plus sp, Group 2 (Plus dot), Eol False]"

definition secFirstPat :: regex where
  "secFirstPat = seqs [Bol False,
     Alt (stri (ascii ''Section'')) (Seq (stri (ascii ''s'')) (Opt (ac CHR ''.''))),
     Star sp, Group 1 numsuf, Star sp, Opt comma_semi, Plus sp, Group 2 (Plus dot), Eol False]"

definition artLastPat :: regex where
  "artLastPat = seqs [Bol False, Group 1 (LazyPlus dot), comma_semi, Star sp,
     Alt (stri (ascii ''Article'')) (Seq (stri (ascii ''Art'')) (Opt (ac CHR ''.''))),
     Star sp, Group 2 numsuf, Eol False]"

definition secLastPat :: regex where
  "secLastPat = seqs [Bol False, Group 1 (LazyPlus dot), comma_semi, Star sp,
     Alt (stri (ascii ''Section'')) (Seq (stri (ascii ''s'')) (Opt (ac CHR ''.''))),
     Star sp, Group 2 numsuf, Eol False]"

definition idBasedPat :: regex where
  "idBasedPat = seqs [Bol False,
     Group 1 (seqs [Plus al, ac CHR ''-'', Plus (Chr (\<lambda>c. is_digit c \<or> c = of_char CHR ''-''))]),
     Star sp, comma_semi, Star sp,
     Alt (Seq (stri (ascii ''art'')) (Opt (ac CHR ''.''))) (Seq (stri (ascii ''s'')) (Opt (ac CHR ''.''))),
     Star sp, Group 2 numsuf, Eol False]"

text \<open>
  The result of one branch of \<open>parseCitation\<close>: \<open>documentRef\<close> is group \<open>d\<close> trimmed,
  \<open>articleRef\<close> is group \<open>a\<close>.
\<close>

definition cite :: "captures \<Rightarrow> nat \<Rightarrow> nat \<Rightarrow> failure + citation option" where
  "cite m d a =
     bind (grp m d) (\<lambda>doc. Inr (Some \<lparr>documentRef = js_trim doc, articleRef = map_of m a\<rparr>))"

definition parseCitation :: "jstring \<Rightarrow> failure + citation option" where
  "parseCitation citation =
     (let trimmed = js_trim citation in
      case js_match arabicPat trimmed of Some m \<Rightarrow> cite m 2 1 | None \<Rightarrow>
      (case js_match artFirstPat trimmed of Some m \<Rightarrow> cite m 2 1 | None \<Rightarrow>
      (case js_match secFirstPat trimmed of Some m \<Rightarrow> cite m 2 1 | None \<Rightarrow>
      (case js_match artLastPat trimmed of Some m \<Rightarrow> cite m 1 2 | None \<Rightarrow>
      (case js_match secLastPat trimmed of Some m \<Rightarrow> cite m 1 2 | None \<Rightarrow>
      (case js_match idBasedPat trimmed of Some m \<Rightarrow> cite m 1 2 | None \<Rightarrow>
       Inr (Some \<lparr>documentRef = trimmed, articleRef = None\<rparr>)))))))"

subsection \<open>\<open>formatCitationTool\<close>\<close>

datatype cite_format = Full | Short | Pinpoint

record format_input =
  fi_citation :: jstring
  fi_format :: "cite_format option"

record format_result =
  original :: jstring
  formatted :: jstring
  format :: cite_format

definition fmtArtFirst :: regex where
  "fmtArtFirst = seqs [Bol False,
     alts [stri (ascii ''Article''), Seq (stri (ascii ''Art'')) (Opt (ac CHR ''.'')), stri madda],
     Star sp, Group 1 numsuf, Star sp, Opt comma_semi, Plus sp, Group 2 (Plus dot), Eol False]"

definition fmtArtLast :: regex where
  "fmtArtLast = seqs [Bol False, Group 1 (LazyPlus dot), comma_semi, Star sp,
     alts [stri (ascii ''Article''), Seq (stri (ascii ''Art'')) (Opt (ac CHR ''.'')), stri madda],
     Star sp, Group 2 numsuf, Eol False]"

definition difcAdgmPat :: regex where
  "difcAdgmPat = seqs [WordB, Alt (stri (ascii ''DIFC'')) (stri (ascii ''ADGM'')), WordB]"

definition citedArticle :: "jstring \<Rightarrow> jstring option" where
  "citedArticle trimmed =
     or_else (opt_grp (js_match fmtArtFirst trimmed) 1)
    (or_else (opt_grp (js_match fmtArtLast trimmed) 2)
    (or_else (opt_grp (js_match secFirstPat trimmed) 1)
             (opt_grp (js_match secLastPat trimmed) 2)))"

definition citedLaw :: "jstring \<Rightarrow> jstring" where
  "citedLaw trimmed =
     (case or_else (opt_grp (js_match fmtArtFirst trimmed) 2)
          (or_else (opt_grp (js_match fmtArtLast trimmed) 1)
          (or_else (opt_grp (js_match secFirstPat trimmed) 2)
                   (opt_grp (js_match secLastPat trimmed) 1)))
      of Some l \<Rightarrow> l | None \<Rightarrow> trimmed)"

definition formatCitationTool :: "format_input \<Rightarrow> format_result" where
  "formatCitationTool input =
     (let fmt = (case fi_format input of None \<Rightarrow> Full | Some f \<Rightarrow> f);
          trimmed = js_trim (fi_citation input);
          article = citedArticle trimmed;
          law = citedLaw trimmed;
          isDifcAdgm = js_test difcAdgmPat law;
          provisionWord = (if isDifcAdgm then ascii ''Section'' else ascii ''Article'');
          provisionAbbrev = (if isDifcAdgm then ascii ''s'' else ascii ''Art.'');
          text = (case fmt of
              Short \<Rightarrow> (case article of
                  Some a \<Rightarrow> provisionAbbrev @ ascii '' '' @ a @ ascii '', ''
                            @ js_trim (takeWhile (\<lambda>c. c \<noteq> of_char CHR ''('') law)
                | None \<Rightarrow> law)
            | Pinpoint \<Rightarrow> (case article of
                  Some a \<Rightarrow> provisionAbbrev @ ascii '' '' @ a
                | None \<Rightarrow> law)
            | Full \<Rightarrow> (case article of
                  Some a \<Rightarrow> provisionWord @ ascii '' '' @ a @ ascii '', '' @ law
                | None \<Rightarrow> law))
      in \<lparr>original = fi_citation input, formatted = text, format = fmt\<rparr>)"

section \<open>The database\<close>

text \<open>
  The tables \<open>legal_documents\<close> and \<open>legal_provisions\<close> with the columns the queries read.
  A table is the list of its rows in the order in which a query visits them; \<open>.get()\<close>
  and \<open>LIMIT 1\<close> return the first row that satisfies the \<open>WHERE\<close> clause.

  The storage engine is SQLite (the developer guide of the repository names it, and no
  query or pragma in the sources changes its defaults). Its \<open>=\<close> compares text exactly.
  Its \<open>LOWER\<close> folds the letters \<open>A-Z\<close> only. Its \<open>LIKE\<close> reads \<open>%\<close> in the pattern as any run
  of characters and \<open>_\<close> as any one character, and compares every other character with
  the letters \<open>A-Z\<close> folded on both sides; \<open>sqlite_like v p\<close> is \<open>v LIKE p\<close>. The texts are
  those the engine can hold: well-formed UTF-16 without the code unit 0.
\<close>

definition fold_ascii :: "jchar \<Rightarrow> jchar" where
  "fold_ascii c = (if 65 \<le> c \<and> c \<le> 90 then c + 32 else c)"

definition sqlite_lower :: "jstring \<Rightarrow> jstring" where
  "sqlite_lower s = map fold_ascii s"

text \<open>
  \<open>after_char c v\<close> is what follows the character that starts with the code unit \<open>c\<close> in
  \<open>c # v\<close>: the engine stores UTF-8, where a surrogate pair is one character.
\<close>

definition after_char :: "jchar \<Rightarrow> jstring \<Rightarrow> jstring" where
  "after_char c v =
     (case v of
        [] \<Rightarrow> []
      | l # v' \<Rightarrow> if 55296 \<le> c \<and> c \<le> 56319 \<and> 56320 \<le> l \<and> l \<le> 57343 then v' else v)"

fun like_match :: "jstring \<Rightarrow> jstring \<Rightarrow> bool" where
  "like_match [] [] = True"
| "like_match [] (c # v) = False"
| "like_match (p # ps) [] = (p = 37 \<and> like_match ps [])"
| "like_match (p # ps) (c # v) =
     (if p = 37 then like_match ps (c # v) \<or> like_match (p # ps) v
      else if p = 95 then like_match ps (after_char c v)
      else fold_ascii p = fold_ascii c \<and> like_match ps v)"

definition sqlite_like :: "jstring \<Rightarrow> jstring \<Rightarrow> bool" where
  "sqlite_like v p = like_match p v"

record document_row =
  row_id :: jstring
  row_title :: jstring
  row_title_en :: jstring
  row_short_name :: jstring
  row_status :: jstring
  row_legal_zone :: "jstring option"

record provision_row =
  row_document_id :: jstring
  row_provision_ref :: jstring
  row_section :: jstring

record database =
  legal_documents :: "document_row list"
  legal_provisions :: "provision_row list"

section \<open>\<open>resolveDocumentId\<close>\<close>

definition fdlPattern :: regex where
  "fdlPattern = seqs [Opt (seqs [str (ascii ''No''), Opt (ac CHR ''.''), Star sp]),
     Group 1 (Plus dg), Star sp, ac CHR ''/'', Star sp, Group 2 (seqs [dg, dg, dg, dg])]"

text \<open>The five queries of \<open>src/utils/statute-id.ts\<close>, each on the trimmed input.\<close>

definition directMatch :: "database \<Rightarrow> jstring \<Rightarrow> document_row option" where
  "directMatch db trimmed = find (\<lambda>d. row_id d = trimmed) (legal_documents db)"

definition shortNameMatch :: "database \<Rightarrow> jstring \<Rightarrow> document_row option" where
  "shortNameMatch db trimmed =
     find (\<lambda>d. sqlite_lower (row_short_name d) = sqlite_lower trimmed) (legal_documents db)"

definition fdlId :: "database \<Rightarrow> jstring \<Rightarrow> document_row option" where
  "fdlId db trimmed =
     (case js_match fdlPattern trimmed of
        None \<Rightarrow> None
      | Some m \<Rightarrow>
          (let num = js_str (map_of m 1); year = js_str (map_of m 2)
           in find (\<lambda>d. row_id d = ascii ''fdl-'' @ num @ ascii ''-'' @ year
                       \<or> row_id d = ascii ''fl-'' @ num @ ascii ''-'' @ year
                       \<or> row_id d = ascii ''cd-'' @ num @ ascii ''-'' @ year)
                   (legal_documents db)))"

definition titleResult :: "database \<Rightarrow> jstring \<Rightarrow> document_row option" where
  "titleResult db trimmed =
     (let pat = ascii ''%'' @ trimmed @ ascii ''%''
      in find (\<lambda>d. sqlite_like (row_title d) pat \<or> sqlite_like (row_short_name d) pat
                  \<or> sqlite_like (row_title_en d) pat)
              (legal_documents db))"

definition lowerResult :: "database \<Rightarrow> jstring \<Rightarrow> document_row option" where
  "lowerResult db trimmed =
     (let pat = sqlite_lower (ascii ''%'' @ trimmed @ ascii ''%'')
      in find (\<lambda>d. sqlite_like (sqlite_lower (row_title d)) pat
                  \<or> sqlite_like (sqlite_lower (row_short_name d)) pat
                  \<or> sqlite_like (sqlite_lower (row_title_en d)) pat)
              (legal_documents db))"

definition resolveDocumentId :: "database \<Rightarrow> jstring \<Rightarrow> jstring option" where
  "resolveDocumentId db input =
     (let trimmed = js_trim input in
      if trimmed = [] then None
      else case directMatch db trimmed of Some d \<Rightarrow> Some (row_id d) | None \<Rightarrow>
      (case shortNameMatch db trimmed of Some d \<Rightarrow> Some (row_id d) | None \<Rightarrow>
      (case fdlId db trimmed of Some d \<Rightarrow> Some (row_id d) | None \<Rightarrow>
      (case titleResult db trimmed of Some d \<Rightarrow> Some (row_id d) | None \<Rightarrow>
      (case lowerResult db trimmed of Some d \<Rightarrow> Some (row_id d) | None \<Rightarrow>
       None)))))"

section \<open>\<open>validateCitationTool\<close>\<close>

record validate_result =
  valid :: bool
  citation_in :: jstring
  normalized :: "jstring option"
  document_id :: "jstring option"
  document_title :: "jstring option"
  res_provision_ref :: "jstring option"
  res_status :: "jstring option"
  res_legal_zone :: "jstring option"
  warnings :: "jstring list"

definition statusWarnings :: "jstring \<Rightarrow> jstring list" where
  "statusWarnings status =
     (if status = ascii ''repealed'' then [ascii ''WARNING: This law has been repealed.'']
      else if status = ascii ''amended''
      then [ascii ''Note: This law has been amended. Verify you are referencing the current version.'']
      else [])"

definition findProvision :: "database \<Rightarrow> jstring \<Rightarrow> jstring \<Rightarrow> provision_row option" where
  "findProvision db docId ref =
     find (\<lambda>p. row_document_id p = docId
              \<and> (row_provision_ref p = ref \<or> row_provision_ref p = ascii ''art'' @ ref
                 \<or> row_provision_ref p = ascii ''s'' @ ref \<or> row_section p = ref))
          (legal_provisions db)"

definition refPrefix :: regex where
  "refPrefix = Seq (Bol False) (Alt (str (ascii ''art'')) (str (ascii ''s'')))"

text \<open>
  The result record without the response metadata. Reading a field of a missing document
  row is a \<open>TypeError\<close>; \<open>if (parsed.articleRef)\<close> is false for a missing and for an
  empty reference.
\<close>

definition couldNotParse :: "jstring \<Rightarrow> validate_result" where
  "couldNotParse citation =
     \<lparr>valid = False, citation_in = citation, normalized = None, document_id = None,
      document_title = None, res_provision_ref = None, res_status = None,
      res_legal_zone = None, warnings = [ascii ''Could not parse citation format'']\<rparr>"

text \<open>The body of \<open>validateCitationTool\<close> behind the \<open>if (!parsed)\<close> return.\<close>

definition validateParsed :: "database \<Rightarrow> jstring \<Rightarrow> citation \<Rightarrow> failure + validate_result" where
  "validateParsed db citation parsed =
     (case resolveDocumentId db (documentRef parsed) of
        None \<Rightarrow> Inr \<lparr>valid = False, citation_in = citation, normalized = None,
                     document_id = None, document_title = None, res_provision_ref = None,
                     res_status = None, res_legal_zone = None,
                     warnings = [ascii ''Document not found: '' @ [34] @ documentRef parsed @ [34]]\<rparr>
      | Some docId \<Rightarrow>
      (case directMatch db docId of
         None \<Rightarrow> Inl TypeError
       | Some doc \<Rightarrow>
         (let warns = statusWarnings (row_status doc) in
          if articleRef parsed \<noteq> None \<and> articleRef parsed \<noteq> Some []
          then (case findProvision db docId (js_str (articleRef parsed)) of
                  None \<Rightarrow> Inr \<lparr>valid = False, citation_in = citation, normalized = None,
                      document_id = Some docId, document_title = Some (row_title doc),
                      res_provision_ref = None, res_status = None,
                      res_legal_zone = row_legal_zone doc,
                      warnings = warns @ [ascii ''Provision '' @ [34] @ js_str (articleRef parsed)
                          @ [34] @ ascii '' not found in '' @ row_title doc]\<rparr>
                | Some provision \<Rightarrow>
                    (let articleNum = replace_first refPrefix [] (row_provision_ref provision);
                         prefix = (if row_legal_zone doc = Some (ascii ''federal'')
                                   then ascii ''Article'' else ascii ''Section'')
                     in Inr \<lparr>valid = True, citation_in = citation,
                          normalized = Some (prefix @ ascii '' '' @ articleNum @ ascii '', ''
                                             @ row_title doc),
                          document_id = Some docId, document_title = Some (row_title doc),
                          res_provision_ref = Some (row_provision_ref provision),
                          res_status = Some (row_status doc),
                          res_legal_zone = row_legal_zone doc, warnings = warns\<rparr>))
          else Inr \<lparr>valid = True, citation_in = citation, normalized = Some (row_title doc),
                  document_id = Some docId, document_title = Some (row_title doc),
                  res_provision_ref = None, res_status = Some (row_status doc),
                  res_legal_zone = row_legal_zone doc, warnings = warns\<rparr>)))"

definition validateCitationTool :: "database \<Rightarrow> jstring \<Rightarrow> failure + validate_result" where
  "validateCitationTool db citation =
     bind (parseCitation citation) (\<lambda>parsed.
       case parsed of
         None \<Rightarrow> Inr (couldNotParse citation)
       | Some parsed \<Rightarrow> validateParsed db citation parsed)"

section \<open>The zone parsers\<close>

record parsed_provision =
  provision_ref :: jstring
  p_chapter :: "jstring option"
  p_section :: jstring
  title :: jstring
  content :: jstring
  language :: jstring

text \<open>
  The entry of a law in the ingestion lists and the parsed document, with the fields the
  parsers copy. The definitions list and the description of a document are not modelled.
\<close>

record law_entry =
  e_id :: jstring
  e_title :: jstring
  e_titleEn :: jstring
  e_shortName :: jstring
  e_status :: jstring

record parsed_document =
  d_id :: jstring
  d_title :: jstring
  d_title_en :: jstring
  d_short_name :: jstring
  d_status :: jstring
  d_legal_zone :: jstring
  d_language :: jstring
  provisions :: "parsed_provision list"

subsection \<open>Deduplication by \<open>provision_ref\<close>\<close>

text \<open>
  A JavaScript \<open>Map\<close> keeps its keys in insertion order; \<open>set\<close> on a key that is present
  replaces the value where it stands.
\<close>

fun map_set :: "'k \<Rightarrow> 'v \<Rightarrow> ('k \<times> 'v) list \<Rightarrow> ('k \<times> 'v) list" where
  "map_set k v [] = [(k, v)]"
| "map_set k v ((k', v') # m) = (if k' = k then (k, v) # m else (k', v') # map_set k v m)"

definition dedupStep ::
  "parsed_provision \<Rightarrow> (jstring \<times> parsed_provision) list \<Rightarrow> (jstring \<times> parsed_provision) list" where
  "dedupStep prov byRef =
     (case map_of byRef (provision_ref prov) of
        None \<Rightarrow> map_set (provision_ref prov) prov byRef
      | Some existing \<Rightarrow>
          if length (content prov) > length (content existing)
          then map_set (provision_ref prov) prov byRef
          else byRef)"

definition dedupProvisions :: "parsed_provision list \<Rightarrow> parsed_provision list" where
  "dedupProvisions provs = map snd (fold dedupStep provs [])"

subsection \<open>Patterns\<close>

definition notc :: "char \<Rightarrow> regex" where
  "notc a = Chr (\<lambda>c. c \<noteq> of_char a)"

definition fedArticleAr :: regex where
  "fedArticleAr = seqs [str madda, Star sp, Opt (ac CHR ''(''), Star sp, Group 1 (Plus dg),
     Star sp, Opt (ac CHR '')''), Star sp, Group 2 (LazyStar anyc),
     Look (Alt (seqs [str madda, Star sp, Opt (ac CHR ''(''), Star sp, Plus dg]) (Eol False))]"

definition fedArticleEn :: regex where
  "fedArticleEn = seqs [str (ascii ''Article''), Star sp, Opt (ac CHR ''(''), Star sp,
     Group 1 (Plus dg), Star sp, Opt (ac CHR '')''), Star sp, Group 2 (LazyStar anyc),
     Look (Alt (seqs [str (ascii ''Article''), Star sp, Opt (ac CHR ''(''), Star sp, Plus dg])
               (Eol False))]"

definition difcArticle :: regex where
  "difcArticle = seqs [Alt (stri (ascii ''Article'')) (stri (ascii ''Section'')), Star sp,
     Group 1 numsuf, Star sp, Group 2 (LazyStar anyc),
     Look (Alt (seqs [Alt (stri (ascii ''Article'')) (stri (ascii ''Section'')), Star sp, numsuf])
               (Eol False))]"

definition adgmSection :: regex where
  "adgmSection = seqs [alts [stri (ascii ''Section''), stri (ascii ''Rule''), stri (ascii ''Regulation'')],
     Star sp, Group 1 numsuf, Star sp, Group 2 (LazyStar anyc),
     Look (Alt (seqs [alts [stri (ascii ''Section''), stri (ascii ''Rule''), stri (ascii ''Regulation'')],
                      Star sp, numsuf])
               (Eol False))]"

text \<open>The chapter patterns; group 0 is the whole match.\<close>

definition chapterAr :: regex where
  "chapterAr = Group 0 (seqs [Alt (str [1575, 1604, 1576, 1575, 1576]) (str [1575, 1604, 1601, 1589, 1604]),
     Plus sp, Group 1 (Plus (Chr (\<lambda>c. (1536 \<le> c \<and> c \<le> 1791) \<or> is_space c)))])"

definition chapterTail :: regex where
  "chapterTail = seqs [Plus sp, Group 1 numsuf, Star sp,
     Chr (\<lambda>c. c = of_char CHR ''-'' \<or> c = 8211 \<or> c = of_char CHR '':''), Star sp,
     Group 2 (LazyPlus dot), Look (Alt (ac CHR ''<'') (Eol False))]"

definition chapterEn :: regex where
  "chapterEn = Group 0 (Seq (Alt (stri (ascii ''Chapter'')) (stri (ascii ''Part''))) chapterTail)"

definition chapterDifc :: regex where
  "chapterDifc = Group 0 (Seq (Alt (stri (ascii ''Part'')) (stri (ascii ''Chapter''))) chapterTail)"

definition chapterAdgm :: regex where
  "chapterAdgm = Group 0 (Seq (alts [stri (ascii ''Part''), stri (ascii ''Chapter''),
                                      stri (ascii ''Division'')]) chapterTail)"

definition titleAr :: regex where
  "titleAr = seqs [ac CHR ''<'', Star (notc CHR ''>''), ac CHR ''>'', Group 1 (Star (notc CHR ''<'')),
     ac CHR ''<'', ac CHR ''/'', Star (notc CHR ''>''), ac CHR ''>'']"

definition boldTag :: regex where
  "boldTag = alts [stri (ascii ''strong''), stri (ascii ''b''), Seq (stri (ascii ''h'')) dg]"

definition titleEn :: regex where
  "titleEn = seqs [ac CHR ''<'', boldTag, Star (notc CHR ''>''), ac CHR ''>'',
     Group 1 (Plus (notc CHR ''<'')), ac CHR ''<'', ac CHR ''/'', boldTag, ac CHR ''>'']"

subsection \<open>The extraction loop\<close>

text \<open>
  The body of \<open>while ((articleMatch = articlePattern.exec(html)) !== null)\<close>, for one
  match (its index and captures): the last chapter heading before the match replaces the
  current chapter, the title is the first tagged element of the body, and the provision is
  pushed when its normalized content is longer than 5 code units, cut at 12000. The state
  is the current chapter and the provisions pushed so far. The three parsers differ in the
  chapter pattern, the title pattern, the prefix of \<open>provision_ref\<close> and the language.
\<close>

definition lastChapter ::
  "regex \<Rightarrow> jstring \<Rightarrow> jstring \<Rightarrow> failure + jstring" where
  "lastChapter chapterScan beforeArticle currentChapter =
     bind (exec_all chapterScan 0 None beforeArticle) (\<lambda>chaps.
       case chaps of
         [] \<Rightarrow> Inr currentChapter
       | _ # _ \<Rightarrow> bind (grp (snd (last chaps)) 0) (\<lambda>whole. Inr (js_trim (stripHtml whole))))"

definition provisionTitle :: "regex \<Rightarrow> jstring \<Rightarrow> failure + jstring" where
  "provisionTitle titlePat rawContent =
     (case js_match titlePat rawContent of
        None \<Rightarrow> Inr []
      | Some m \<Rightarrow> bind (grp m 1) (\<lambda>t. Inr (js_trim (stripHtml t))))"

definition articleStep ::
  "regex \<Rightarrow> regex \<Rightarrow> jstring \<Rightarrow> jstring \<Rightarrow> jstring \<Rightarrow> nat \<times> captures
     \<Rightarrow> jstring \<times> parsed_provision list \<Rightarrow> failure + jstring \<times> parsed_provision list" where
  "articleStep chapterScan titlePat refPre lang html m st =
     (case (m, st) of ((index, caps), (currentChapter, provs)) \<Rightarrow>
      bind (lastChapter chapterScan (take index html) currentChapter) (\<lambda>currentChapter'.
      bind (grp caps 2) (\<lambda>rawContent.
      bind (provisionTitle titlePat rawContent) (\<lambda>ttl.
        let articleNum = js_str (map_of caps 1);
            cont = stripHtml rawContent
        in Inr (currentChapter',
                if length cont > 5
                then provs @ [\<lparr>provision_ref = refPre @ articleNum,
                               p_chapter = (if currentChapter' = [] then None else Some currentChapter'),
                               p_section = articleNum, title = ttl,
                               content = take 12000 cont, language = lang\<rparr>]
                else provs)))))"

fun articleLoop ::
  "('m \<Rightarrow> 's \<Rightarrow> failure + 's) \<Rightarrow> 'm list \<Rightarrow> 's \<Rightarrow> failure + 's" where
  "articleLoop step [] st = Inr st"
| "articleLoop step (m # ms) st =
     (case step m st of Inl e \<Rightarrow> Inl e | Inr st' \<Rightarrow> articleLoop step ms st')"

text \<open>
  The provisions pushed by the whole loop. The matches are those of the \<open>exec\<close> loop on
  the article pattern; they do not depend on the loop body, so they are listed first.
\<close>

definition extractProvisions ::
  "regex \<Rightarrow> regex \<Rightarrow> regex \<Rightarrow> jstring \<Rightarrow> jstring \<Rightarrow> jstring
     \<Rightarrow> failure + parsed_provision list" where
  "extractProvisions articlePattern chapterScan titlePat refPre lang html =
     bind (exec_all articlePattern 0 None html) (\<lambda>ms.
     bind (articleLoop (articleStep chapterScan titlePat refPre lang html) ms ([], []))
       (\<lambda>st. Inr (snd st)))"

subsection \<open>\<open>parseFederalLawHtml\<close>, \<open>parseDifcLawHtml\<close>, \<open>parseAdgmRegulationHtml\<close>\<close>

definition isArabic :: "jstring \<Rightarrow> bool" where
  "isArabic html = js_test (str madda) html"

definition federalLanguage :: "jstring \<Rightarrow> jstring" where
  "federalLanguage html = (if isArabic html then ascii ''ar'' else ascii ''en'')"

definition fedArticlePattern :: "jstring \<Rightarrow> regex" where
  "fedArticlePattern html = (if isArabic html then fedArticleAr else fedArticleEn)"

definition fedChapterScan :: "jstring \<Rightarrow> regex" where
  "fedChapterScan html = (if isArabic html then chapterAr else chapterEn)"

definition fedTitlePattern :: "jstring \<Rightarrow> regex" where
  "fedTitlePattern html = (if isArabic html then titleAr else titleEn)"

definition extractFederal :: "jstring \<Rightarrow> failure + parsed_provision list" where
  "extractFederal html =
     extractProvisions (fedArticlePattern html) (fedChapterScan html) (fedTitlePattern html)
       (ascii ''art'') (federalLanguage html) html"

definition extractDifc :: "jstring \<Rightarrow> failure + parsed_provision list" where
  "extractDifc html = extractProvisions difcArticle chapterDifc titleEn (ascii ''art'') (ascii ''en'') html"

definition extractAdgm :: "jstring \<Rightarrow> failure + parsed_provision list" where
  "extractAdgm html = extractProvisions adgmSection chapterAdgm titleEn (ascii ''s'') (ascii ''en'') html"

definition parseFederalLawHtml :: "jstring \<Rightarrow> law_entry \<Rightarrow> failure + parsed_document" where
  "parseFederalLawHtml html law =
     bind (extractFederal html) (\<lambda>provs.
       Inr \<lparr>d_id = e_id law, d_title = e_title law, d_title_en = e_titleEn law,
            d_short_name = e_shortName law, d_status = e_status law,
            d_legal_zone = ascii ''federal'', d_language = federalLanguage html,
            provisions = dedupProvisions provs\<rparr>)"

definition parseDifcLawHtml :: "jstring \<Rightarrow> law_entry \<Rightarrow> failure + parsed_document" where
  "parseDifcLawHtml html law =
     bind (extractDifc html) (\<lambda>provs.
       Inr \<lparr>d_id = e_id law, d_title = e_title law, d_title_en = e_title law,
            d_short_name = e_shortName law, d_status = e_status law,
            d_legal_zone = ascii ''difc'', d_language = ascii ''en'',
            provisions = dedupProvisions provs\<rparr>)"

definition parseAdgmRegulationHtml :: "jstring \<Rightarrow> law_entry \<Rightarrow> failure + parsed_document" where
  "parseAdgmRegulationHtml html regulation =
     bind (extractAdgm html) (\<lambda>provs.
       Inr \<lparr>d_id = e_id regulation, d_title = e_title regulation,
            d_title_en = e_title regulation, d_short_name = e_shortName regulation,
            d_status = e_status regulation, d_legal_zone = ascii ''adgm'',
            d_language = ascii ''en'', provisions = dedupProvisions provs\<rparr>)"

section \<open>Notions used in the statements\<close>

definition rest_of :: "mstate \<Rightarrow> jstring" where
  "rest_of st = fst (snd st)"

definition caps_of :: "mstate \<Rightarrow> captures" where
  "caps_of st = snd (snd st)"

text \<open>
  The first match only, with a continuation for the rest of the pattern, as a backtracking
  engine finds it: \<open>rmatch_k r st k\<close> is the first result of \<open>k\<close> on the ends of \<open>r\<close>
  (lemma \<open>rmatch_k_first\<close>). It is used to evaluate the matcher on concrete inputs.
\<close>

primrec first_of :: "mstate list \<Rightarrow> (mstate \<Rightarrow> mstate option) \<Rightarrow> mstate option" where
  "first_of [] k = None"
| "first_of (st # sts) k = (case k st of Some x \<Rightarrow> Some x | None \<Rightarrow> first_of sts k)"

primrec star_loop ::
  "(mstate \<Rightarrow> (mstate \<Rightarrow> mstate option) \<Rightarrow> mstate option) \<Rightarrow> nat \<Rightarrow> mstate
     \<Rightarrow> (mstate \<Rightarrow> mstate option) \<Rightarrow> mstate option" where
  "star_loop m 0 st k = k st"
| "star_loop m (Suc n) st k =
     (case m st (\<lambda>st'. if advances st st' then star_loop m n st' k else None) of
        Some x \<Rightarrow> Some x | None \<Rightarrow> k st)"

primrec lazy_loop ::
  "(mstate \<Rightarrow> (mstate \<Rightarrow> mstate option) \<Rightarrow> mstate option) \<Rightarrow> nat \<Rightarrow> mstate
     \<Rightarrow> (mstate \<Rightarrow> mstate option) \<Rightarrow> mstate option" where
  "lazy_loop m 0 st k = k st"
| "lazy_loop m (Suc n) st k =
     (case k st of
        Some x \<Rightarrow> Some x
      | None \<Rightarrow> m st (\<lambda>st'. if advances st st' then lazy_loop m n st' k else None))"

primrec rmatch_k :: "regex \<Rightarrow> mstate \<Rightarrow> (mstate \<Rightarrow> mstate option) \<Rightarrow> mstate option" where
  "rmatch_k Eps st k = k st"
| "rmatch_k (Chr P) st k = first_of (rmatch (Chr P) st) k"
| "rmatch_k (Seq r1 r2) st k = rmatch_k r1 st (\<lambda>st'. rmatch_k r2 st' k)"
| "rmatch_k (Alt r1 r2) st k =
     (case rmatch_k r1 st k of Some x \<Rightarrow> Some x | None \<Rightarrow> rmatch_k r2 st k)"
| "rmatch_k (Opt r) st k =
     (case rmatch_k r st (\<lambda>st'. if advances st st' then k st' else None) of
        Some x \<Rightarrow> Some x | None \<Rightarrow> k st)"
| "rmatch_k (Star r) st k = star_loop (rmatch_k r) (Suc (length (rest_of st))) st k"
| "rmatch_k (LazyStar r) st k = lazy_loop (rmatch_k r) (Suc (length (rest_of st))) st k"
| "rmatch_k (Bol m) st k = first_of (rmatch (Bol m) st) k"
| "rmatch_k (Eol m) st k = first_of (rmatch (Eol m) st) k"
| "rmatch_k WordB st k = first_of (rmatch WordB st) k"
| "rmatch_k (Look r) st k = (case rmatch_k r st Some of None \<Rightarrow> None | Some x \<Rightarrow> k st)"
| "rmatch_k (Group j r) st k =
     rmatch_k r st (\<lambda>st'. k (fst st', rest_of st',
        (j, take (length (rest_of st) - length (rest_of st')) (rest_of st)) # caps_of st'))"

text \<open>The end state of a group: the state \<open>st'\<close> with the text consumed since \<open>xs\<close> as group \<open>j\<close>.\<close>

definition cap_state :: "nat \<Rightarrow> jstring \<Rightarrow> mstate \<Rightarrow> mstate" where
  "cap_state j xs st' =
     (fst st', rest_of st', (j, take (length xs - length (rest_of st')) xs) # caps_of st')"

text \<open>\<open>consumes r\<close>: by its shape, every match of \<open>r\<close> takes at least one code unit.\<close>

primrec consumes :: "regex \<Rightarrow> bool" where
  "consumes Eps = False"
| "consumes (Chr P) = True"
| "consumes (Seq r1 r2) = (consumes r1 \<or> consumes r2)"
| "consumes (Alt r1 r2) = (consumes r1 \<and> consumes r2)"
| "consumes (Opt r) = False"
| "consumes (Star r) = False"
| "consumes (LazyStar r) = False"
| "consumes (Bol m) = False"
| "consumes (Eol m) = False"
| "consumes WordB = False"
| "consumes (Look r) = False"
| "consumes (Group k r) = consumes r"

text \<open>\<open>binds k r\<close>: by its shape, every match of \<open>r\<close> sets group \<open>k\<close>.\<close>

primrec binds :: "nat \<Rightarrow> regex \<Rightarrow> bool" where
  "binds k Eps = False"
| "binds k (Chr P) = False"
| "binds k (Seq r1 r2) = (binds k r1 \<or> binds k r2)"
| "binds k (Alt r1 r2) = (binds k r1 \<and> binds k r2)"
| "binds k (Opt r) = False"
| "binds k (Star r) = False"
| "binds k (LazyStar r) = False"
| "binds k (Bol m) = False"
| "binds k (Eol m) = False"
| "binds k WordB = False"
| "binds k (Look r) = False"
| "binds k (Group j r) = (j = k \<or> binds k r)"

text \<open>\<open>contains w s\<close>: the string \<open>s\<close> has \<open>w\<close> as a substring.\<close>

definition contains :: "jstring \<Rightarrow> jstring \<Rightarrow> bool" where
  "contains w s = (\<exists>pre post. s = pre @ w @ post)"

text \<open>The normalized bodies (group 2) of a list of matches of an article pattern.\<close>

definition normalizedBodies :: "(nat \<times> captures) list \<Rightarrow> jstring list" where
  "normalizedBodies ms = map (\<lambda>m. stripHtml (js_str (map_of (snd m) 2))) ms"

text \<open>
  \<open>retained raw out\<close>: what the deduplication of the provisions \<open>raw\<close> of one extraction
  pass keeps in \<open>out\<close>. No two kept provisions share a \<open>provision_ref\<close>; every extracted
  provision has a kept one of the same \<open>provision_ref\<close> whose content is at least as long;
  and a kept provision is an extracted one before which every provision of the same
  \<open>provision_ref\<close> is strictly shorter, so of several longest ones the first is kept.
\<close>

definition retained :: "parsed_provision list \<Rightarrow> parsed_provision list \<Rightarrow> bool" where
  "retained raw out \<longleftrightarrow>
     distinct (map provision_ref out)
   \<and> (\<forall>p \<in> set raw. \<exists>q \<in> set out. provision_ref q = provision_ref p
          \<and> length (content p) \<le> length (content q))
   \<and> (\<forall>q \<in> set out. \<exists>i < length raw. raw ! i = q
          \<and> (\<forall>j < i. provision_ref (raw ! j) = provision_ref q
                \<longrightarrow> length (content (raw ! j)) < length (content q)))"

text \<open>The invariant of the deduplication loop after the provisions \<open>xs\<close>, for the map \<open>m\<close>.\<close>

definition dedupInv :: "parsed_provision list \<Rightarrow> (jstring \<times> parsed_provision) list \<Rightarrow> bool" where
  "dedupInv xs m \<longleftrightarrow>
     distinct (map fst m)
   \<and> (\<forall>e \<in> set m. provision_ref (snd e) = fst e)
   \<and> (\<forall>p \<in> set xs. \<exists>e \<in> set m. fst e = provision_ref p
          \<and> length (content p) \<le> length (content (snd e)))
   \<and> (\<forall>e \<in> set m. \<exists>i < length xs. xs ! i = snd e
          \<and> (\<forall>j < i. provision_ref (xs ! j) = fst e
                \<longrightarrow> length (content (xs ! j)) < length (content (snd e))))"

text \<open>
  \<open>pushedFrom pat html raw\<close>: the contents of the provisions \<open>raw\<close> are, in order, the
  normalized bodies of the matches of \<open>pat\<close> in \<open>html\<close> that are longer than 5 code units,
  each cut to its first 12000 code units.
\<close>

definition pushedFrom :: "regex \<Rightarrow> jstring \<Rightarrow> parsed_provision list \<Rightarrow> bool" where
  "pushedFrom pat html raw \<longleftrightarrow>
     (\<exists>ms. exec_all pat 0 None html = Inr ms
         \<and> map content raw = map (take 12000) (filter (\<lambda>c. 5 < length c) (normalizedBodies ms)))"

text \<open>
  \<open>firstMatch rs s\<close>: the first pattern of the list \<open>rs\<close>, in order, that matches \<open>s\<close>, as
  its position in the list and the captures of its match.
\<close>

fun firstMatch :: "regex list \<Rightarrow> jstring \<Rightarrow> (nat \<times> captures) option" where
  "firstMatch [] s = None"
| "firstMatch (r # rs) s =
     (case js_match r s of
        Some m \<Rightarrow> Some (0, m)
      | None \<Rightarrow> map_option (\<lambda>(i, m). (Suc i, m)) (firstMatch rs s))"

text \<open>The six patterns of \<open>parseCitation\<close> in the order in which the source tries them.\<close>

definition citationPatterns :: "regex list" where
  "citationPatterns = [arabicPat, artFirstPat, secFirstPat, artLastPat, secLastPat, idBasedPat]"

text \<open>
  \<open>hasZoneToken law\<close>: the law text contains \<open>DIFC\<close> or \<open>ADGM\<close>, in any letter case, as a
  word of its own: not preceded and not followed by a letter, a digit or an underscore.
\<close>

definition hasZoneToken :: "jstring \<Rightarrow> bool" where
  "hasZoneToken law \<longleftrightarrow>
     (\<exists>pre tok post. law = pre @ tok @ post
        \<and> (map canon tok = ascii ''DIFC'' \<or> map canon tok = ascii ''ADGM'')
        \<and> (pre = [] \<or> \<not> is_word (last pre))
        \<and> (post = [] \<or> \<not> is_word (hd post)))"

text \<open>\<open>zoneAt xs\<close>: the text \<open>xs\<close> starts with \<open>DIFC\<close> or \<open>ADGM\<close> in any letter case.\<close>

definition zoneAt :: "jstring \<Rightarrow> bool" where
  "zoneAt xs \<longleftrightarrow> 4 \<le> length xs
     \<and> (map canon (take 4 xs) = ascii ''DIFC'' \<or> map canon (take 4 xs) = ascii ''ADGM'')"












section \<open>Sample inputs\<close>

definition law0 :: law_entry where
  "law0 = \<lparr>e_id = ascii ''fdl-45-2021'',
            e_title = ascii ''Federal Decree-Law No. 45 of 2021'',
            e_titleEn = ascii ''Federal Decree-Law No. 45 of 2021 on Personal Data Protection'',
            e_shortName = ascii ''PDPL'', e_status = ascii ''in_force''\<rparr>"

text \<open>Two regions for Article 2, the first with the longer body, then Article 3.\<close>

definition html2 :: jstring where
  "html2 = ascii ''Article 2 The first long text. Article 2 shorter Article 3 third one''"

text \<open>An Arabic article: the word for article, the number 1 and a body.\<close>

definition htmlAr :: jstring where
  "htmlAr = madda @ ascii '' 1 ''
     @ [1610, 1587, 1605, 1609, 32, 1607, 1584, 1575, 32, 1575, 1604, 1602, 1575, 1606, 1608, 1606]"

text \<open>Article 1 has a body of three code units, Article 2 a longer one.\<close>

definition html3 :: jstring where
  "html3 = ascii ''Article 1 abc Article 2 Long enough''"

text \<open>A citation that both the Article prefix and the Article suffix pattern match.\<close>

definition citeBoth :: jstring where
  "citeBoth = ascii ''Article 2, Law X, Article 3''"

definition citeNone :: jstring where
  "citeNone = ascii ''  Nonexistent Law 9999 ''"

text \<open>Citations of a federal and of a DIFC law.\<close>

definition citeFederal :: jstring where
  "citeFederal = ascii ''Article 2, Federal Decree-Law No. 45 of 2021''"

definition citeDifc :: jstring where
  "citeDifc = ascii ''Article 1, DIFC Law No. 5 of 2020 (Data Protection)''"











section \<open>The matcher\<close>

lemmas rmatch_star = rmatch.simps(7)
lemmas rmatch_lazy = rmatch.simps(8)
declare rmatch.simps(7,8) [simp del]

lemma rest_of_simp [simp]: "rest_of (p, xs, c) = xs"
  by (simp add: rest_of_def)

lemma caps_of_simp [simp]: "caps_of (p, xs, c) = c"
  by (simp add: caps_of_def)

text \<open>A match never moves backwards.\<close>

lemma rmatch_length:
  "st' \<in> set (rmatch r st) \<Longrightarrow> length (rest_of st') \<le> length (rest_of st)"
proof (induction r st arbitrary: st' rule: rmatch.induct)
  case (4 r1 r2 st)
  then obtain mid where m: "mid \<in> set (rmatch r1 st)" "st' \<in> set (rmatch r2 mid)"
    by auto
  from "4.IH"(1)[OF m(1)] "4.IH"(2)[OF m(1) m(2)] show ?case by simp
next
  case (7 r st)
  show ?case
  proof (cases "st' = st")
    case True then show ?thesis by simp
  next
    case False
    with "7.prems" rmatch_star[of r st] obtain mid where m: "mid \<in> set (rmatch r st)"
      "advances st mid" "st' \<in> set (rmatch (Star r) mid)" by auto
    from "7.IH"(2)[of mid st'] m "7.IH"(1)[OF m(1)] show ?thesis by auto
  qed
next
  case (8 r st)
  show ?case
  proof (cases "st' = st")
    case True then show ?thesis by simp
  next
    case False
    with "8.prems" rmatch_lazy[of r st] obtain mid where m: "mid \<in> set (rmatch r st)"
      "advances st mid" "st' \<in> set (rmatch (LazyStar r) mid)" by auto
    from "8.IH"(2)[of mid st'] m "8.IH"(1)[OF m(1)] show ?thesis by auto
  qed
qed (auto split: if_splits option.splits list.splits)

lemma rmatch_consumes:
  "st' \<in> set (rmatch r st) \<Longrightarrow> consumes r \<Longrightarrow> length (rest_of st') < length (rest_of st)"
proof (induction r st arbitrary: st' rule: rmatch.induct)
  case (4 r1 r2 st)
  then obtain mid where m: "mid \<in> set (rmatch r1 st)" "st' \<in> set (rmatch r2 mid)"
    by auto
  from rmatch_length[OF m(1)] rmatch_length[OF m(2)] "4.IH"(1)[OF m(1)]
    "4.IH"(2)[OF m(1) m(2)] "4.prems"(2)
  show ?case by auto
qed (auto split: if_splits option.splits list.splits)

text \<open>Captures are only added, and a group on every path of the pattern is set.\<close>

lemma rmatch_keeps:
  "st' \<in> set (rmatch r st) \<Longrightarrow> k \<in> fst ` set (caps_of st) \<Longrightarrow> k \<in> fst ` set (caps_of st')"
proof (induction r st arbitrary: st' rule: rmatch.induct)
  case (4 r1 r2 st)
  then obtain mid where m: "mid \<in> set (rmatch r1 st)" "st' \<in> set (rmatch r2 mid)"
    by auto
  from "4.IH"(1)[OF m(1)] "4.IH"(2)[OF m(1) m(2)] "4.prems"(2) show ?case by simp
next
  case (7 r st)
  show ?case
  proof (cases "st' = st")
    case True then show ?thesis using 7 by simp
  next
    case False
    with "7.prems" rmatch_star[of r st] obtain mid where m: "mid \<in> set (rmatch r st)"
      "advances st mid" "st' \<in> set (rmatch (Star r) mid)" by auto
    from "7.IH"(2)[of mid st'] m "7.IH"(1)[OF m(1)] "7.prems"(2) show ?thesis by auto
  qed
next
  case (8 r st)
  show ?case
  proof (cases "st' = st")
    case True then show ?thesis using 8 by simp
  next
    case False
    with "8.prems" rmatch_lazy[of r st] obtain mid where m: "mid \<in> set (rmatch r st)"
      "advances st mid" "st' \<in> set (rmatch (LazyStar r) mid)" by auto
    from "8.IH"(2)[of mid st'] m "8.IH"(1)[OF m(1)] "8.prems"(2) show ?thesis by auto
  qed
next
  case (13 k' r prev xs caps)
  then show ?case by (auto split: prod.splits)
qed (auto split: if_splits option.splits list.splits)

lemma rmatch_binds:
  "st' \<in> set (rmatch r st) \<Longrightarrow> binds k r \<Longrightarrow> k \<in> fst ` set (caps_of st')"
proof (induction r st arbitrary: st' rule: rmatch.induct)
  case (4 r1 r2 st)
  then obtain mid where m: "mid \<in> set (rmatch r1 st)" "st' \<in> set (rmatch r2 mid)"
    by auto
  show ?case
  proof (cases "binds k r1")
    case True
    from "4.IH"(1)[OF m(1) True] rmatch_keeps[OF m(2)] show ?thesis by simp
  next
    case False
    with "4.prems"(2) have "binds k r2" by simp
    from "4.IH"(2)[OF m(1) m(2) this] show ?thesis .
  qed
next
  case (13 k' r prev xs caps)
  then show ?case by (auto split: prod.splits)
qed (auto split: if_splits option.splits list.splits)


section \<open>Searching and the \<open>exec\<close> loop\<close>


lemma search_sound:
  "search r prev xs = Some (k, st') \<Longrightarrow>
     k \<le> length xs \<and> (\<exists>pk. st' \<in> set (rmatch r (pk, drop k xs, [])))"
proof (induction xs arbitrary: prev k)
  case Nil
  then obtain rest where "rmatch r (prev, [], []) = st' # rest" "k = 0"
    by (auto split: list.splits)
  then show ?case by (auto intro!: exI[of _ prev])
next
  case (Cons c cs)
  show ?case
  proof (cases "rmatch r (prev, c # cs, [])")
    case Nil
    with Cons.prems obtain k' where k': "k = Suc k'" "search r (Some c) cs = Some (k', st')"
      by auto
    from Cons.IH[OF k'(2)] k'(1) show ?thesis by auto
  next
    case (Cons st rest)
    with Cons.prems have "k = 0" "st' = st" by auto
    with Cons show ?thesis by (auto intro: exI[of _ prev])
  qed
qed

lemma search_caps:
  "search r prev xs = Some (k, (p, rest, caps)) \<Longrightarrow> binds j r \<Longrightarrow> map_of caps j \<noteq> None"
proof -
  assume a: "search r prev xs = Some (k, (p, rest, caps))" and b: "binds j r"
  from search_sound[OF a] obtain pk where "(p, rest, caps) \<in> set (rmatch r (pk, drop k xs, []))"
    by auto
  from rmatch_binds[OF this b] have "j \<in> fst ` set caps" by simp
  then show ?thesis by (simp add: map_of_eq_None_iff)
qed

lemma exec_all_total:
  "consumes r \<Longrightarrow> \<exists>ms. exec_all r off prev xs = Inr ms"
proof (induction r off prev xs rule: exec_all.induct)
  case (1 r off prev xs)
  show ?case
  proof (cases "search r prev xs")
    case None
    then show ?thesis by simp
  next
    case (Some a)
    obtain k prev' rest caps where a: "a = (k, (prev', rest, caps))" by (cases a) auto
    from search_sound[OF Some[unfolded a]] obtain pk where
      k: "k \<le> length xs" and m: "(prev', rest, caps) \<in> set (rmatch r (pk, drop k xs, []))" by auto
    from rmatch_consumes[OF m "1.prems"] have lt: "length rest < length xs - k" by simp
    from "1.IH"[OF Some a[symmetric] refl refl lt "1.prems"] obtain ms where
      "exec_all r (off + (length xs - length rest)) prev' rest = Inr ms" by auto
    with Some a lt show ?thesis by simp
  qed
qed

lemma exec_all_caps:
  "exec_all r off prev xs = Inr ms \<Longrightarrow> binds j r \<Longrightarrow> m \<in> set ms \<Longrightarrow> map_of (snd m) j \<noteq> None"
proof (induction r off prev xs arbitrary: ms rule: exec_all.induct)
  case (1 r off prev xs)
  show ?case
  proof (cases "search r prev xs")
    case None
    with "1.prems" show ?thesis by simp
  next
    case (Some a)
    obtain k prev' rest caps where a: "a = (k, (prev', rest, caps))" by (cases a) auto
    show ?thesis
    proof (cases "length rest < length xs - k")
      case True
      with "1.prems"(1) Some a obtain ms' where
        ms': "exec_all r (off + (length xs - length rest)) prev' rest = Inr ms'"
        "ms = (off + k, caps) # ms'"
        by (auto split: sum.splits)
      show ?thesis
      proof (cases "m = (off + k, caps)")
        case True
        with search_caps[OF Some[unfolded a] "1.prems"(2)] show ?thesis by simp
      next
        case False
        with ms' "1.prems"(3) have "m \<in> set ms'" by simp
        from "1.IH"[OF Some a[symmetric] refl refl True ms'(1) "1.prems"(2) this] show ?thesis .
      qed
    next
      case False
      with "1.prems"(1) Some a show ?thesis by simp
    qed
  qed
qed


section \<open>The extraction loop returns\<close>


lemma grp_total: "map_of caps k \<noteq> None \<Longrightarrow> \<exists>s. grp caps k = Inr s"
  by (auto simp: grp_def)

lemma lastChapter_total:
  assumes "consumes cs" "binds 0 cs"
  shows "\<exists>c. lastChapter cs before cur = Inr c"
proof -
  from exec_all_total[OF assms(1)] obtain ms where ms: "exec_all cs 0 None before = Inr ms"
    by blast
  show ?thesis
  proof (cases ms)
    case Nil
    with ms show ?thesis by (simp add: lastChapter_def bind_def)
  next
    case (Cons m ms')
    then have "last ms \<in> set ms" by simp
    from exec_all_caps[OF ms assms(2) this] obtain w where "grp (snd (last ms)) 0 = Inr w"
      using grp_total by blast
    with ms Cons show ?thesis by (simp add: lastChapter_def bind_def)
  qed
qed

lemma provisionTitle_total:
  assumes "binds 1 tp"
  shows "\<exists>t. provisionTitle tp raw = Inr t"
proof (cases "search tp None raw")
  case None
  then show ?thesis by (simp add: provisionTitle_def js_match_def)
next
  case (Some a)
  obtain k p rest caps where a: "a = (k, (p, rest, caps))" by (cases a) auto
  from search_caps[OF Some[unfolded a] assms] obtain t where "grp caps 1 = Inr t"
    using grp_total by blast
  with Some a show ?thesis by (simp add: provisionTitle_def js_match_def bind_def)
qed

lemma articleStep_result:
  assumes "consumes cs" "binds 0 cs" "binds 1 tp" "map_of caps 2 = Some raw"
  shows "\<exists>cur' ch ttl. articleStep cs tp refPre lang html (index, caps) (cur, provs) =
           Inr (cur', if 5 < length (stripHtml raw)
                      then provs @ [\<lparr>provision_ref = refPre @ js_str (map_of caps 1),
                                     p_chapter = ch, p_section = js_str (map_of caps 1),
                                     title = ttl, content = take 12000 (stripHtml raw),
                                     language = lang\<rparr>]
                      else provs)"
proof -
  from lastChapter_total[OF assms(1,2)] obtain c where
    c: "lastChapter cs (take index html) cur = Inr c" by blast
  from provisionTitle_total[OF assms(3)] obtain t where t: "provisionTitle tp raw = Inr t"
    by blast
  from assms(4) have g: "grp caps 2 = Inr raw" by (simp add: grp_def)
  show ?thesis
    by (simp add: articleStep_def c t g bind_def Let_def)
qed

lemma articleLoop_result:
  assumes "consumes cs" "binds 0 cs" "binds 1 tp" "\<forall>m \<in> set ms. map_of (snd m) 2 \<noteq> None"
  shows "\<exists>cur' news. articleLoop (articleStep cs tp refPre lang html) ms (cur, provs) =
           Inr (cur', provs @ news)
         \<and> map content news = map (take 12000) (filter (\<lambda>c. 5 < length c) (normalizedBodies ms))
         \<and> (\<forall>p \<in> set news. language p = lang
               \<and> (\<exists>m \<in> set ms. provision_ref p = refPre @ js_str (map_of (snd m) 1)))"
  using assms(4)
proof (induction ms arbitrary: cur provs)
  case Nil
  then show ?case by (simp add: normalizedBodies_def)
next
  case (Cons m ms)
  obtain index caps where m: "m = (index, caps)" by (cases m) auto
  from Cons.prems m obtain raw where raw: "map_of caps 2 = Some raw" by auto
  from articleStep_result[OF assms(1-3) raw, of refPre lang html index cur provs]
  obtain cur1 ch ttl where
    step: "articleStep cs tp refPre lang html (index, caps) (cur, provs) =
           Inr (cur1, if 5 < length (stripHtml raw)
                      then provs @ [\<lparr>provision_ref = refPre @ js_str (map_of caps 1),
                                     p_chapter = ch, p_section = js_str (map_of caps 1),
                                     title = ttl, content = take 12000 (stripHtml raw),
                                     language = lang\<rparr>]
                      else provs)" by blast
  let ?provs1 = "if 5 < length (stripHtml raw)
                      then provs @ [\<lparr>provision_ref = refPre @ js_str (map_of caps 1),
                                     p_chapter = ch, p_section = js_str (map_of caps 1),
                                     title = ttl, content = take 12000 (stripHtml raw),
                                     language = lang\<rparr>]
                      else provs"
  from Cons.prems have "\<forall>m \<in> set ms. map_of (snd m) 2 \<noteq> None" by simp
  from Cons.IH[OF this, of cur1 ?provs1] obtain cur' news where
    ih: "articleLoop (articleStep cs tp refPre lang html) ms (cur1, ?provs1) = Inr (cur', ?provs1 @ news)"
        "map content news = map (take 12000) (filter (\<lambda>c. 5 < length c) (normalizedBodies ms))"
        "\<forall>p \<in> set news. language p = lang
               \<and> (\<exists>m \<in> set ms. provision_ref p = refPre @ js_str (map_of (snd m) 1))"
    by blast
  show ?case
  proof (cases "5 < length (stripHtml raw)")
    case True
    let ?new = "\<lparr>provision_ref = refPre @ js_str (map_of caps 1),
                                     p_chapter = ch, p_section = js_str (map_of caps 1),
                                     title = ttl, content = take 12000 (stripHtml raw),
                                     language = lang\<rparr>"
    from True ih(1) step m have
      "articleLoop (articleStep cs tp refPre lang html) (m # ms) (cur, provs) = Inr (cur', provs @ (?new # news))"
      by simp
    moreover from True ih(2) m raw have
      "map content (?new # news) = map (take 12000) (filter (\<lambda>c. 5 < length c) (normalizedBodies (m # ms)))"
      by (simp add: normalizedBodies_def js_str_def)
    moreover from ih(3) m have "\<forall>p \<in> set (?new # news). language p = lang
               \<and> (\<exists>m' \<in> set (m # ms). provision_ref p = refPre @ js_str (map_of (snd m') 1))"
      by auto
    ultimately show ?thesis by blast
  next
    case False
    from False ih(1) step m have
      "articleLoop (articleStep cs tp refPre lang html) (m # ms) (cur, provs) = Inr (cur', provs @ news)"
      by simp
    moreover from False ih(2) m raw have
      "map content news = map (take 12000) (filter (\<lambda>c. 5 < length c) (normalizedBodies (m # ms)))"
      by (simp add: normalizedBodies_def js_str_def)
    moreover from ih(3) have "\<forall>p \<in> set news. language p = lang
               \<and> (\<exists>m' \<in> set (m # ms). provision_ref p = refPre @ js_str (map_of (snd m') 1))"
      by auto
    ultimately show ?thesis by blast
  qed
qed

lemma extractProvisions_result:
  assumes "consumes ap" "binds 2 ap" "consumes cs" "binds 0 cs" "binds 1 tp"
  shows "\<exists>ms raw. exec_all ap 0 None html = Inr ms
         \<and> extractProvisions ap cs tp refPre lang html = Inr raw
         \<and> map content raw = map (take 12000) (filter (\<lambda>c. 5 < length c) (normalizedBodies ms))
         \<and> (\<forall>p \<in> set raw. language p = lang
               \<and> (\<exists>m \<in> set ms. provision_ref p = refPre @ js_str (map_of (snd m) 1)))"
proof -
  from exec_all_total[OF assms(1)] obtain ms where ms: "exec_all ap 0 None html = Inr ms"
    by blast
  from exec_all_caps[OF ms assms(2)] have "\<forall>m \<in> set ms. map_of (snd m) 2 \<noteq> None" by blast
  from articleLoop_result[OF assms(3-5) this, of refPre lang html "[]" "[]"]
  obtain cur' news where
    "articleLoop (articleStep cs tp refPre lang html) ms ([], []) = Inr (cur', [] @ news)"
    "map content news = map (take 12000) (filter (\<lambda>c. 5 < length c) (normalizedBodies ms))"
    "\<forall>p \<in> set news. language p = lang
               \<and> (\<exists>m \<in> set ms. provision_ref p = refPre @ js_str (map_of (snd m) 1))"
    by blast
  with ms show ?thesis by (simp add: extractProvisions_def bind_def)
qed

lemma content_bounds:
  assumes "map content raw = map (take 12000) (filter (\<lambda>c. 5 < length c) bs)" "p \<in> set raw"
  shows "5 < length (content p) \<and> length (content p) \<le> 12000"
proof -
  from assms(2) have "content p \<in> set (map content raw)" by simp
  with assms(1) obtain b where "b \<in> set bs" "5 < length b" "content p = take 12000 b" by auto
  then show ?thesis by simp
qed

lemma patterns_shape:
  "consumes fedArticleAr" "binds 2 fedArticleAr" "consumes fedArticleEn" "binds 2 fedArticleEn"
  "consumes difcArticle" "binds 2 difcArticle" "consumes adgmSection" "binds 2 adgmSection"
  "consumes chapterAr" "binds 0 chapterAr" "consumes chapterEn" "binds 0 chapterEn"
  "consumes chapterDifc" "binds 0 chapterDifc" "consumes chapterAdgm" "binds 0 chapterAdgm"
  "binds 1 titleAr" "binds 1 titleEn"
  by (simp_all add: fedArticleAr_def fedArticleEn_def difcArticle_def adgmSection_def
      chapterAr_def chapterEn_def chapterDifc_def chapterAdgm_def chapterTail_def titleAr_def titleEn_def
      madda_def chr_def chri_def ac_def ascii_def Plus_def LazyPlus_def numsuf_def notc_def boldTag_def)


section \<open>Deduplication\<close>


lemma map_set_keys: "fst ` set (map_set k v m) = insert k (fst ` set m)"
proof (induction m)
  case Nil
  show ?case by simp
next
  case (Cons e m)
  obtain k' v' where e: "e = (k', v')" by (cases e) simp
  show ?case
  proof (cases "k' = k")
    case True
    have "map_set k v (e # m) = (k, v) # m" using True e by simp
    then show ?thesis using True e by simp
  next
    case False
    have "map_set k v (e # m) = (k', v') # map_set k v m" using False e by simp
    then have "fst ` set (map_set k v (e # m)) = insert k' (insert k (fst ` set m))"
      using Cons by simp
    also have "\<dots> = insert k (fst ` set (e # m))" using e by (simp add: insert_commute)
    finally show ?thesis .
  qed
qed

lemma map_set_distinct: "distinct (map fst m) \<Longrightarrow> distinct (map fst (map_set k v m))"
proof (induction m)
  case Nil
  show ?case by simp
next
  case (Cons e m)
  obtain k' v' where e: "e = (k', v')" by (cases e) simp
  from Cons.prems e have nk: "k' \<notin> fst ` set m" and dm: "distinct (map fst m)" by simp_all
  show ?case
  proof (cases "k' = k")
    case True
    have "map_set k v (e # m) = (k, v) # m" using True e by simp
    then show ?thesis using True nk dm by simp
  next
    case False
    have eq: "map_set k v (e # m) = (k', v') # map_set k v m" using False e by simp
    have "k' \<notin> fst ` set (map_set k v m)" using nk False by (simp add: map_set_keys)
    then show ?thesis using eq Cons.IH[OF dm] by simp
  qed
qed

lemma map_set_set:
  "distinct (map fst m) \<Longrightarrow> set (map_set k v m) = insert (k, v) {e \<in> set m. fst e \<noteq> k}"
proof (induction m)
  case Nil
  show ?case by simp
next
  case (Cons e m)
  obtain k' v' where e: "e = (k', v')" by (cases e) simp
  from Cons.prems e have nk: "k' \<notin> fst ` set m" and dm: "distinct (map fst m)" by simp_all
  show ?case
  proof (cases "k' = k")
    case True
    have eq: "map_set k v (e # m) = (k, v) # m" using True e by simp
    have "\<And>x. x \<in> set m \<Longrightarrow> fst x \<noteq> k" using nk True by (metis imageI)
    then have "{x \<in> set (e # m). fst x \<noteq> k} = set m" using True e by auto
    then show ?thesis using eq by simp
  next
    case False
    have eq: "map_set k v (e # m) = (k', v') # map_set k v m" using False e by simp
    have "{x \<in> set (e # m). fst x \<noteq> k} = insert (k', v') {x \<in> set m. fst x \<noteq> k}"
      using False e by auto
    then show ?thesis using eq Cons.IH[OF dm] by (simp add: insert_commute)
  qed
qed

lemma dedupInv_empty: "dedupInv [] []"
  by (simp add: dedupInv_def)

lemma dedupInv_step:
  assumes inv: "dedupInv xs m"
  shows "dedupInv (xs @ [x]) (dedupStep x m)"
proof -
  from inv have all: "distinct (map fst m)
   \<and> (\<forall>e \<in> set m. provision_ref (snd e) = fst e)
   \<and> (\<forall>p \<in> set xs. \<exists>e \<in> set m. fst e = provision_ref p
          \<and> length (content p) \<le> length (content (snd e)))
   \<and> (\<forall>e \<in> set m. \<exists>i < length xs. xs ! i = snd e
          \<and> (\<forall>j < i. provision_ref (xs ! j) = fst e
                \<longrightarrow> length (content (xs ! j)) < length (content (snd e))))"
    unfolding dedupInv_def .
  have d: "distinct (map fst m)" using all by (elim conjE)
  have r: "provision_ref (snd e) = fst e" if "e \<in> set m" for e
    using all that by (elim conjE) (rule bspec)
  have c: "\<exists>e \<in> set m. fst e = provision_ref p
          \<and> length (content p) \<le> length (content (snd e))" if "p \<in> set xs" for p
    using all that by (elim conjE) (rule bspec)
  have f: "\<exists>i < length xs. xs ! i = snd e
          \<and> (\<forall>j < i. provision_ref (xs ! j) = fst e
                \<longrightarrow> length (content (xs ! j)) < length (content (snd e)))" if "e \<in> set m" for e
    using all that by (elim conjE) (rule bspec)
  have old: "\<exists>i < length (xs @ [x]). (xs @ [x]) ! i = snd e
          \<and> (\<forall>j < i. provision_ref ((xs @ [x]) ! j) = fst e
                \<longrightarrow> length (content ((xs @ [x]) ! j)) < length (content (snd e)))"
    if "e \<in> set m" for e
  proof -
    from f[OF that] obtain i where i: "i < length xs" "xs ! i = snd e"
      "\<forall>j < i. provision_ref (xs ! j) = fst e
                \<longrightarrow> length (content (xs ! j)) < length (content (snd e))" by blast
    have "i < length (xs @ [x])" using i(1) by simp
    moreover have "(xs @ [x]) ! i = snd e" using i(1,2) by (simp add: nth_append)
    moreover have "\<forall>j < i. provision_ref ((xs @ [x]) ! j) = fst e
                \<longrightarrow> length (content ((xs @ [x]) ! j)) < length (content (snd e))"
      using i(1,3) by (simp add: nth_append)
    ultimately show ?thesis by blast
  qed
  let ?k = "provision_ref x"
  let ?m' = "map_set ?k x m"
  have set': "set ?m' = insert (?k, x) {e \<in> set m. fst e \<noteq> ?k}"
    by (rule map_set_set[OF d])
  have new_inv: "dedupInv (xs @ [x]) ?m'"
    if bound: "\<And>j. j < length xs \<Longrightarrow> provision_ref (xs ! j) = ?k
                \<Longrightarrow> length (content (xs ! j)) < length (content x)"
  proof -
    have 1: "distinct (map fst ?m')" by (rule map_set_distinct[OF d])
    have 2: "\<forall>e \<in> set ?m'. provision_ref (snd e) = fst e"
      using set' r by auto
    have 3: "\<forall>p \<in> set (xs @ [x]). \<exists>e \<in> set ?m'. fst e = provision_ref p
          \<and> length (content p) \<le> length (content (snd e))"
    proof
      fix p assume p: "p \<in> set (xs @ [x])"
      show "\<exists>e \<in> set ?m'. fst e = provision_ref p
          \<and> length (content p) \<le> length (content (snd e))"
      proof (cases "provision_ref p = ?k")
        case True
        have "length (content p) \<le> length (content x)"
        proof (cases "p = x")
          case True then show ?thesis by simp
        next
          case False
          with p have "p \<in> set xs" by simp
          then obtain j where "j < length xs" "xs ! j = p" by (auto simp: in_set_conv_nth)
          with bound[of j] True show ?thesis by simp
        qed
        with True set' show ?thesis by (intro bexI[of _ "(?k, x)"]) auto
      next
        case False
        with p have "p \<in> set xs" by auto
        from c[OF this] obtain e where "e \<in> set m" "fst e = provision_ref p"
          "length (content p) \<le> length (content (snd e))" by blast
        with False set' show ?thesis by (intro bexI[of _ e]) auto
      qed
    qed
    have 4: "\<forall>e \<in> set ?m'. \<exists>i < length (xs @ [x]). (xs @ [x]) ! i = snd e
          \<and> (\<forall>j < i. provision_ref ((xs @ [x]) ! j) = fst e
                \<longrightarrow> length (content ((xs @ [x]) ! j)) < length (content (snd e)))"
    proof
      fix e assume e: "e \<in> set ?m'"
      show "\<exists>i < length (xs @ [x]). (xs @ [x]) ! i = snd e
          \<and> (\<forall>j < i. provision_ref ((xs @ [x]) ! j) = fst e
                \<longrightarrow> length (content ((xs @ [x]) ! j)) < length (content (snd e)))"
      proof (cases "e = (?k, x)")
        case True
        have "length xs < length (xs @ [x])" by simp
        moreover have "(xs @ [x]) ! length xs = snd e" using True by simp
        moreover have "\<forall>j < length xs. provision_ref ((xs @ [x]) ! j) = fst e
                \<longrightarrow> length (content ((xs @ [x]) ! j)) < length (content (snd e))"
          using True bound by (simp add: nth_append)
        ultimately show ?thesis by blast
      next
        case False
        with e set' have "e \<in> set m" by auto
        from old[OF this] show ?thesis .
      qed
    qed
    show ?thesis unfolding dedupInv_def by (intro conjI 1 2 3 4)
  qed
  show ?thesis
  proof (cases "map_of m ?k")
    case None
    then have nk: "?k \<notin> fst ` set m" by (simp add: map_of_eq_None_iff)
    have "dedupInv (xs @ [x]) ?m'"
    proof (rule new_inv)
      fix j assume j: "j < length xs" "provision_ref (xs ! j) = ?k"
      from j(1) have "xs ! j \<in> set xs" by simp
      from c[OF this] j(2) obtain e where "e \<in> set m" "fst e = ?k" by auto
      then have "?k \<in> fst ` set m" by (metis imageI)
      with nk show "length (content (xs ! j)) < length (content x)" by simp
    qed
    with None show ?thesis by (simp add: dedupStep_def)
  next
    case (Some existing)
    then have ex: "(?k, existing) \<in> set m" by (rule map_of_SomeD)
    show ?thesis
    proof (cases "length (content x) > length (content existing)")
      case True
      have "dedupInv (xs @ [x]) ?m'"
      proof (rule new_inv)
        fix j assume j: "j < length xs" "provision_ref (xs ! j) = ?k"
        from j(1) have "xs ! j \<in> set xs" by simp
        from c[OF this] j(2) obtain e where e: "e \<in> set m" "fst e = ?k"
          "length (content (xs ! j)) \<le> length (content (snd e))" by auto
        from e(2) have "e = (?k, snd e)" by (cases e) simp
        with e(1) have "(?k, snd e) \<in> set m" by simp
        from eq_key_imp_eq_value[OF d this ex] \<open>e = (?k, snd e)\<close>
        have "e = (?k, existing)" by simp
        with e(3) True show "length (content (xs ! j)) < length (content x)" by simp
      qed
      with Some True show ?thesis by (simp add: dedupStep_def)
    next
      case False
      have 1: "distinct (map fst m)" by (rule d)
      have 2: "\<forall>e \<in> set m. provision_ref (snd e) = fst e" using r by blast
      have 3: "\<forall>p \<in> set (xs @ [x]). \<exists>e \<in> set m. fst e = provision_ref p
          \<and> length (content p) \<le> length (content (snd e))"
      proof
        fix p assume p: "p \<in> set (xs @ [x])"
        show "\<exists>e \<in> set m. fst e = provision_ref p
          \<and> length (content p) \<le> length (content (snd e))"
        proof (cases "p = x")
          case True
          with ex False show ?thesis by (intro bexI[of _ "(?k, existing)"]) auto
        next
          case False
          with p have "p \<in> set xs" by simp
          from c[OF this] show ?thesis .
        qed
      qed
      have 4: "\<forall>e \<in> set m. \<exists>i < length (xs @ [x]). (xs @ [x]) ! i = snd e
          \<and> (\<forall>j < i. provision_ref ((xs @ [x]) ! j) = fst e
                \<longrightarrow> length (content ((xs @ [x]) ! j)) < length (content (snd e)))"
        using old by blast
      have "dedupInv (xs @ [x]) m" unfolding dedupInv_def by (intro conjI 1 2 3 4)
      with Some False show ?thesis by (simp add: dedupStep_def)
    qed
  qed
qed

lemma dedupInv_fold: "dedupInv xs (fold dedupStep xs [])"
proof (induction xs rule: rev_induct)
  case Nil
  then show ?case by (simp add: dedupInv_empty)
next
  case (snoc x xs)
  from dedupInv_step[OF snoc, of x] show ?case by simp
qed

lemma dedupProvisions_retained: "retained raw (dedupProvisions raw)"
proof -
  let ?m = "fold dedupStep raw []"
  from dedupInv_fold[of raw] have all: "distinct (map fst ?m)
   \<and> (\<forall>e \<in> set ?m. provision_ref (snd e) = fst e)
   \<and> (\<forall>p \<in> set raw. \<exists>e \<in> set ?m. fst e = provision_ref p
          \<and> length (content p) \<le> length (content (snd e)))
   \<and> (\<forall>e \<in> set ?m. \<exists>i < length raw. raw ! i = snd e
          \<and> (\<forall>j < i. provision_ref (raw ! j) = fst e
                \<longrightarrow> length (content (raw ! j)) < length (content (snd e))))"
    unfolding dedupInv_def .
  have d: "distinct (map fst ?m)" using all by (elim conjE)
  have r: "provision_ref (snd e) = fst e" if "e \<in> set ?m" for e
    using all that by (elim conjE) (rule bspec)
  have c: "\<exists>e \<in> set ?m. fst e = provision_ref p
          \<and> length (content p) \<le> length (content (snd e))" if "p \<in> set raw" for p
    using all that by (elim conjE) (rule bspec)
  have f: "\<exists>i < length raw. raw ! i = snd e
          \<and> (\<forall>j < i. provision_ref (raw ! j) = fst e
                \<longrightarrow> length (content (raw ! j)) < length (content (snd e)))" if "e \<in> set ?m" for e
    using all that by (elim conjE) (rule bspec)
  have "map provision_ref (map snd ?m) = map fst ?m"
    using r by (simp add: comp_def)
  then have 1: "distinct (map provision_ref (dedupProvisions raw))"
    unfolding dedupProvisions_def using d by (simp only:)
  have 2: "\<forall>p \<in> set raw. \<exists>q \<in> set (dedupProvisions raw). provision_ref q = provision_ref p
          \<and> length (content p) \<le> length (content q)"
  proof
    fix p assume "p \<in> set raw"
    from c[OF this] obtain e where e: "e \<in> set ?m" "fst e = provision_ref p"
      "length (content p) \<le> length (content (snd e))" by blast
    with r[OF e(1)] show "\<exists>q \<in> set (dedupProvisions raw). provision_ref q = provision_ref p
          \<and> length (content p) \<le> length (content q)"
      by (intro bexI[of _ "snd e"]) (auto simp: dedupProvisions_def)
  qed
  have 3: "\<forall>q \<in> set (dedupProvisions raw). \<exists>i < length raw. raw ! i = q
          \<and> (\<forall>j < i. provision_ref (raw ! j) = provision_ref q
                \<longrightarrow> length (content (raw ! j)) < length (content q))"
  proof
    fix q assume "q \<in> set (dedupProvisions raw)"
    then obtain e where e: "e \<in> set ?m" "q = snd e" by (auto simp: dedupProvisions_def)
    from f[OF e(1)] r[OF e(1)] e(2) show "\<exists>i < length raw. raw ! i = q
          \<and> (\<forall>j < i. provision_ref (raw ! j) = provision_ref q
                \<longrightarrow> length (content (raw ! j)) < length (content q))" by simp
  qed
  show ?thesis unfolding retained_def by (intro conjI 1 2 3)
qed

lemma dedupProvisions_subset: "set (dedupProvisions raw) \<subseteq> set raw"
proof
  fix q assume "q \<in> set (dedupProvisions raw)"
  moreover from dedupProvisions_retained[of raw]
  have "\<forall>q \<in> set (dedupProvisions raw). \<exists>i < length raw. raw ! i = q
          \<and> (\<forall>j < i. provision_ref (raw ! j) = provision_ref q
                \<longrightarrow> length (content (raw ! j)) < length (content q))"
    unfolding retained_def by (elim conjE)
  ultimately obtain i where "i < length raw" "raw ! i = q" by blast
  then show "q \<in> set raw" by auto
qed


section \<open>The parsers return\<close>


lemma fed_shape:
  "consumes (fedArticlePattern html)" "binds 2 (fedArticlePattern html)"
  "consumes (fedChapterScan html)" "binds 0 (fedChapterScan html)"
  "binds 1 (fedTitlePattern html)"
  by (simp_all add: fedArticlePattern_def fedChapterScan_def fedTitlePattern_def patterns_shape
      del: One_nat_def)

lemma extract_pushed:
  assumes "consumes ap" "binds 2 ap" "consumes cs" "binds 0 cs" "binds 1 tp"
  shows "\<exists>raw. extractProvisions ap cs tp refPre lang html = Inr raw \<and> pushedFrom ap html raw
     \<and> (\<forall>p \<in> set raw. language p = lang)"
proof -
  from extractProvisions_result[OF assms, where refPre=refPre and lang=lang and html=html]
  obtain ms raw where r: "exec_all ap 0 None html = Inr ms"
    "extractProvisions ap cs tp refPre lang html = Inr raw"
    "map content raw = map (take 12000) (filter (\<lambda>c. 5 < length c) (normalizedBodies ms))"
    "\<forall>p \<in> set raw. language p = lang
               \<and> (\<exists>m \<in> set ms. provision_ref p = refPre @ js_str (map_of (snd m) 1))"
    by blast
  from r(1,3) have "pushedFrom ap html raw" unfolding pushedFrom_def by blast
  moreover from r(4) have "\<forall>p \<in> set raw. language p = lang" by blast
  ultimately show ?thesis using r(2) by blast
qed

lemma extractFederal_result:
  "\<exists>raw. extractFederal html = Inr raw \<and> pushedFrom (fedArticlePattern html) html raw
     \<and> (\<forall>p \<in> set raw. language p = federalLanguage html)"
  unfolding extractFederal_def by (rule extract_pushed[OF fed_shape])

lemma extractDifc_result:
  "\<exists>raw. extractDifc html = Inr raw \<and> pushedFrom difcArticle html raw
     \<and> (\<forall>p \<in> set raw. language p = ascii ''en'')"
  unfolding extractDifc_def by (rule extract_pushed[OF patterns_shape(5,6,13,14,18)])

lemma extractAdgm_result:
  "\<exists>raw. extractAdgm html = Inr raw \<and> pushedFrom adgmSection html raw
     \<and> (\<forall>p \<in> set raw. language p = ascii ''en'')"
  unfolding extractAdgm_def by (rule extract_pushed[OF patterns_shape(7,8,15,16,18)])

lemma pushedFrom_bounds:
  assumes "pushedFrom pat html raw" "p \<in> set (dedupProvisions raw)"
  shows "5 < length (content p) \<and> length (content p) \<le> 12000"
proof -
  from assms(1) obtain ms where
    "map content raw = map (take 12000) (filter (\<lambda>c. 5 < length c) (normalizedBodies ms))"
    unfolding pushedFrom_def by blast
  moreover from assms(2) dedupProvisions_subset have "p \<in> set raw" by blast
  ultimately show ?thesis by (rule content_bounds)
qed

lemma parseFederal_provisions:
  "extractFederal html = Inr raw \<Longrightarrow>
     \<exists>doc. parseFederalLawHtml html law = Inr doc \<and> provisions doc = dedupProvisions raw
       \<and> d_language doc = federalLanguage html"
  by (simp add: parseFederalLawHtml_def bind_def)

lemma parseDifc_provisions:
  "extractDifc html = Inr raw \<Longrightarrow>
     \<exists>doc. parseDifcLawHtml html law = Inr doc \<and> provisions doc = dedupProvisions raw
       \<and> d_language doc = ascii ''en''"
  by (simp add: parseDifcLawHtml_def bind_def)

lemma parseAdgm_provisions:
  "extractAdgm html = Inr raw \<Longrightarrow>
     \<exists>doc. parseAdgmRegulationHtml html law = Inr doc \<and> provisions doc = dedupProvisions raw
       \<and> d_language doc = ascii ''en''"
  by (simp add: parseAdgmRegulationHtml_def bind_def)

text \<open>A literal pattern matches exactly where the literal stands.\<close>

lemma rmatch_str:
  "rmatch (str w) (prev, xs, caps) \<noteq> [] \<longleftrightarrow> (\<exists>ys. xs = w @ ys)"
proof (induction w arbitrary: prev xs)
  case Nil
  show ?case by simp
next
  case (Cons a w)
  show ?case
  proof (cases xs)
    case Nil
    then show ?thesis by (simp add: chr_def)
  next
    case (Cons c cs)
    show ?thesis
    proof (cases "c = a")
      case True
      with Cons Cons.IH[of "Some c" cs] show ?thesis by (simp add: chr_def)
    next
      case False
      with Cons show ?thesis by (simp add: chr_def)
    qed
  qed
qed

lemma search_str: "search (str w) prev xs \<noteq> None \<longleftrightarrow> contains w xs"
proof (induction xs arbitrary: prev)
  case Nil
  have "rmatch (str w) (prev, [], []) \<noteq> [] \<longleftrightarrow> w = []" using rmatch_str[of w prev "[]" "[]"] by simp
  then show ?case by (auto simp: contains_def split: list.splits)
next
  case (Cons c cs)
  have split: "contains w (c # cs) \<longleftrightarrow> (\<exists>ys. c # cs = w @ ys) \<or> contains w cs"
  proof
    assume "contains w (c # cs)"
    then obtain pre post where pp: "c # cs = pre @ w @ post" unfolding contains_def by blast
    show "(\<exists>ys. c # cs = w @ ys) \<or> contains w cs"
    proof (cases pre)
      case Nil
      with pp show ?thesis by auto
    next
      case (Cons d pre')
      with pp have "cs = pre' @ w @ post" by simp
      then show ?thesis unfolding contains_def by blast
    qed
  next
    assume "(\<exists>ys. c # cs = w @ ys) \<or> contains w cs"
    then show "contains w (c # cs)"
    proof
      assume "\<exists>ys. c # cs = w @ ys"
      then obtain ys where "c # cs = [] @ w @ ys" by auto
      then show ?thesis unfolding contains_def by blast
    next
      assume "contains w cs"
      then obtain pre post where "cs = pre @ w @ post" unfolding contains_def by blast
      then have "c # cs = (c # pre) @ w @ post" by simp
      then show ?thesis unfolding contains_def by blast
    qed
  qed
  show ?case
  proof (cases "rmatch (str w) (prev, c # cs, [])")
    case Nil
    with rmatch_str[of w prev "c # cs" "[]"] have "\<not> (\<exists>ys. c # cs = w @ ys)" by simp
    with Nil Cons.IH[of "Some c"] split show ?thesis by simp
  next
    case (Cons st sts)
    with rmatch_str[of w prev "c # cs" "[]"] have "\<exists>ys. c # cs = w @ ys" by simp
    with Cons split show ?thesis by simp
  qed
qed

lemma isArabic_contains: "isArabic html \<longleftrightarrow> contains madda html"
  unfolding isArabic_def js_test_def by (rule search_str)


section \<open>Evaluating the matcher\<close>


lemma advances_iff: "advances st st' \<longleftrightarrow> length (rest_of st') < length (rest_of st)"
  by (cases st; cases st') simp

lemma first_of_append:
  "first_of (xs @ ys) k = (case first_of xs k of Some x \<Rightarrow> Some x | None \<Rightarrow> first_of ys k)"
  by (induction xs) (auto split: option.splits)

lemma first_of_concat_map:
  "first_of (concat (map f xs)) k = first_of xs (\<lambda>x. first_of (f x) k)"
  by (induction xs) (auto simp: first_of_append split: option.splits)

lemma first_of_filter:
  "first_of (filter P xs) k = first_of xs (\<lambda>x. if P x then k x else None)"
  by (induction xs) (auto split: option.splits)

lemma first_of_map: "first_of (map g xs) k = first_of xs (\<lambda>x. k (g x))"
  by (induction xs) (auto split: option.splits)

lemma first_of_cong:
  "(\<And>x. x \<in> set xs \<Longrightarrow> f x = g x) \<Longrightarrow> first_of xs f = first_of xs g"
  by (induction xs) (auto split: option.splits)

lemma opt_case_id: "(case x of None \<Rightarrow> None | Some y \<Rightarrow> Some y) = x"
  by (cases x) simp_all

lemma first_of_single: "first_of [st] k = k st"
  by (cases "k st") simp_all

lemma star_loop_first:
  assumes m: "\<And>st k. m st k = first_of (rmatch r st) k"
  shows "length (rest_of st) < n \<Longrightarrow> star_loop m n st k = first_of (rmatch (Star r) st) k"
proof (induction n arbitrary: st)
  case 0
  then show ?case by simp
next
  case (Suc n)
  let ?A = "first_of (rmatch r st) (\<lambda>st'. if advances st st' then star_loop m n st' k else None)"
  let ?B = "first_of (concat (map (rmatch (Star r)) (filter (advances st) (rmatch r st)))) k"
  have "?A = first_of (rmatch r st) (\<lambda>st'. if advances st st' then first_of (rmatch (Star r) st') k else None)"
  proof (rule first_of_cong)
    fix st' assume "st' \<in> set (rmatch r st)"
    show "(if advances st st' then star_loop m n st' k else None)
        = (if advances st st' then first_of (rmatch (Star r) st') k else None)"
    proof (cases "advances st st'")
      case True
      with Suc.prems have "length (rest_of st') < n" by (simp add: advances_iff)
      from Suc.IH[OF this] True show ?thesis by simp
    next
      case False
      then show ?thesis by simp
    qed
  qed
  also have "\<dots> = ?B"
    by (simp add: first_of_concat_map first_of_filter)
  finally have AB: "?A = ?B" .
  have step: "star_loop m (Suc n) st k = (case ?A of Some x \<Rightarrow> Some x | None \<Rightarrow> k st)"
    by (simp only: star_loop.simps m)
  also have "\<dots> = (case ?B of Some x \<Rightarrow> Some x | None \<Rightarrow> k st)" by (simp only: AB)
  also have "\<dots> = first_of (rmatch (Star r) st) k"
    by (simp only: rmatch_star[of r st] first_of_append first_of_single)
  finally show ?case .
qed

lemma lazy_loop_first:
  assumes m: "\<And>st k. m st k = first_of (rmatch r st) k"
  shows "length (rest_of st) < n \<Longrightarrow> lazy_loop m n st k = first_of (rmatch (LazyStar r) st) k"
proof (induction n arbitrary: st)
  case 0
  then show ?case by simp
next
  case (Suc n)
  let ?A = "first_of (rmatch r st) (\<lambda>st'. if advances st st' then lazy_loop m n st' k else None)"
  let ?B = "first_of (concat (map (rmatch (LazyStar r)) (filter (advances st) (rmatch r st)))) k"
  have "?A = first_of (rmatch r st) (\<lambda>st'. if advances st st' then first_of (rmatch (LazyStar r) st') k else None)"
  proof (rule first_of_cong)
    fix st' assume "st' \<in> set (rmatch r st)"
    show "(if advances st st' then lazy_loop m n st' k else None)
        = (if advances st st' then first_of (rmatch (LazyStar r) st') k else None)"
    proof (cases "advances st st'")
      case True
      with Suc.prems have "length (rest_of st') < n" by (simp add: advances_iff)
      from Suc.IH[OF this] True show ?thesis by simp
    next
      case False
      then show ?thesis by simp
    qed
  qed
  also have "\<dots> = ?B"
    by (simp add: first_of_concat_map first_of_filter)
  finally have AB: "?A = ?B" .
  have step: "lazy_loop m (Suc n) st k = (case k st of Some x \<Rightarrow> Some x | None \<Rightarrow> ?A)"
    by (simp only: lazy_loop.simps m)
  also have "\<dots> = (case k st of Some x \<Rightarrow> Some x | None \<Rightarrow> ?B)" by (simp only: AB)
  also have "\<dots> = first_of (rmatch (LazyStar r) st) k"
    by (simp only: rmatch_lazy[of r st] first_of.simps)
  finally show ?case .
qed

theorem rmatch_k_first: "rmatch_k r st k = first_of (rmatch r st) k"
proof (induction r arbitrary: st k)
  case (Seq r1 r2)
  then show ?case by (simp add: first_of_concat_map)
next
  case (Alt r1 r2)
  then show ?case by (simp add: first_of_append cong: option.case_cong)
next
  case (Opt r)
  then show ?case by (simp add: first_of_append first_of_filter opt_case_id cong: option.case_cong)
next
  case (Star r)
  have "star_loop (rmatch_k r) (Suc (length (rest_of st))) st k = first_of (rmatch (Star r) st) k"
    by (rule star_loop_first) (simp_all add: Star.IH)
  then show ?case by (simp only: rmatch_k.simps)
next
  case (LazyStar r)
  have "lazy_loop (rmatch_k r) (Suc (length (rest_of st))) st k = first_of (rmatch (LazyStar r) st) k"
    by (rule lazy_loop_first) (simp_all add: LazyStar.IH)
  then show ?case by (simp only: rmatch_k.simps)
next
  case (Look r)
  show ?case
  proof (cases "rmatch r st")
    case Nil
    then show ?thesis by (simp add: Look)
  next
    case (Cons x xs)
    have "rmatch_k r st Some = Some x" by (simp add: Look Cons)
    moreover have "rmatch (Look r) st = [st]" by (simp add: Cons)
    ultimately show ?thesis by (simp only: rmatch_k.simps first_of_single option.case)
  qed
next
  case (Group j r)
  obtain p xs c where st: "st = (p, xs, c)" by (cases st) auto
  have "(\<lambda>st'. k (fst st', rest_of st', (j, take (length xs - length (rest_of st')) xs) # caps_of st'))
      = (\<lambda>st'. k ((\<lambda>(p', ys, caps'). (p', ys, (j, take (length xs - length ys) xs) # caps')) st'))"
    by (rule ext) (auto split: prod.splits)
  with Group st show ?case by (simp add: first_of_map)
qed (simp_all add: opt_case_id cong: option.case_cong)



declare rmatch_k.simps [simp del]

lemma ev_eps: "rmatch_k Eps (p, xs, c) k = k (p, xs, c)"
  by (simp add: rmatch_k.simps opt_case_id first_of_append cong: option.case_cong)

lemma ev_chr_nil: "rmatch_k (Chr P) (p, [], c) k = None"
  by (simp add: rmatch_k.simps opt_case_id first_of_append cong: option.case_cong)

lemma ev_chr_cons: "rmatch_k (Chr P) (p, x # xs, c) k = (if P x then k (Some x, xs, c) else None)"
  by (simp add: rmatch_k.simps opt_case_id opt_case_id first_of_append cong: option.case_cong)

lemma ev_seq: "rmatch_k (Seq r1 r2) (p, xs, c) k = rmatch_k r1 (p, xs, c) (\<lambda>st'. rmatch_k r2 st' k)"
  by (simp add: rmatch_k.simps opt_case_id first_of_append cong: option.case_cong)

lemma ev_alt: "rmatch_k (Alt r1 r2) (p, xs, c) k =
    (case rmatch_k r1 (p, xs, c) k of Some x \<Rightarrow> Some x | None \<Rightarrow> rmatch_k r2 (p, xs, c) k)"
  by (simp add: rmatch_k.simps opt_case_id first_of_append cong: option.case_cong)

lemma ev_opt_seq: "rmatch_k (Opt (Seq r1 r2)) (p, xs, c) k =
    (case rmatch_k (Seq r1 r2) (p, xs, c) (\<lambda>st'. if advances (p, xs, c) st' then k st' else None) of
       Some x \<Rightarrow> Some x | None \<Rightarrow> k (p, xs, c))"
  by (simp add: rmatch_k.simps opt_case_id first_of_append cong: option.case_cong)

lemma ev_opt_chr_nil: "rmatch_k (Opt (Chr P)) (p, [], c) k = k (p, [], c)"
  by (simp add: rmatch_k.simps opt_case_id first_of_append cong: option.case_cong)

lemma ev_opt_chr_cons: "rmatch_k (Opt (Chr P)) (p, x # xs, c) k =
    (if P x then (case k (Some x, xs, c) of Some y \<Rightarrow> Some y | None \<Rightarrow> k (p, x # xs, c))
     else k (p, x # xs, c))"
  by (simp add: rmatch_k.simps opt_case_id opt_case_id first_of_append cong: option.case_cong)

lemma ev_star_chr_nil: "rmatch_k (Star (Chr P)) (p, [], c) k = k (p, [], c)"
  by (simp add: rmatch_k_first rmatch_star opt_case_id opt_case_id first_of_append cong: option.case_cong)

lemma ev_star_chr_cons: "rmatch_k (Star (Chr P)) (p, x # xs, c) k =
    (if P x then (case rmatch_k (Star (Chr P)) (Some x, xs, c) k of
                    Some y \<Rightarrow> Some y | None \<Rightarrow> k (p, x # xs, c))
     else k (p, x # xs, c))"
  using rmatch_star[of "Chr P" "(p, x # xs, c)"]
  by (simp add: rmatch_k_first first_of_append opt_case_id cong: option.case_cong)

lemma ev_lazy_chr_nil: "rmatch_k (LazyStar (Chr P)) (p, [], c) k = k (p, [], c)"
  by (simp add: rmatch_k_first rmatch_lazy opt_case_id opt_case_id first_of_append cong: option.case_cong)

lemma ev_lazy_chr_cons: "rmatch_k (LazyStar (Chr P)) (p, x # xs, c) k =
    (case k (p, x # xs, c) of
       Some y \<Rightarrow> Some y
     | None \<Rightarrow> if P x then rmatch_k (LazyStar (Chr P)) (Some x, xs, c) k else None)"
  using rmatch_lazy[of "Chr P" "(p, x # xs, c)"]
  by (simp add: rmatch_k_first first_of_append opt_case_id cong: option.case_cong)

lemma ev_bol: "rmatch_k (Bol m) (p, xs, c) k =
    (if p = None \<or> (m \<and> is_line_term (the p)) then k (p, xs, c) else None)"
  by (cases p) (simp_all add: rmatch_k.simps opt_case_id cong: option.case_cong)

lemma ev_eol_nil: "rmatch_k (Eol m) (p, [], c) k = k (p, [], c)"
  by (simp add: rmatch_k.simps opt_case_id opt_case_id first_of_append cong: option.case_cong)

lemma ev_eol_cons: "rmatch_k (Eol m) (p, x # xs, c) k =
    (if m \<and> is_line_term x then k (p, x # xs, c) else None)"
  by (simp add: rmatch_k.simps opt_case_id opt_case_id first_of_append cong: option.case_cong)

lemma ev_wordb_nil: "rmatch_k WordB (p, [], c) k = (if at_word p then k (p, [], c) else None)"
  by (simp add: rmatch_k.simps opt_case_id opt_case_id first_of_append cong: option.case_cong)

lemma ev_wordb_cons: "rmatch_k WordB (p, x # xs, c) k =
    (if at_word p \<noteq> is_word x then k (p, x # xs, c) else None)"
  by (simp add: rmatch_k.simps opt_case_id opt_case_id first_of_append cong: option.case_cong)

lemma ev_look: "rmatch_k (Look r) (p, xs, c) k =
    (case rmatch_k r (p, xs, c) Some of None \<Rightarrow> None | Some x \<Rightarrow> k (p, xs, c))"
  by (simp add: rmatch_k.simps opt_case_id first_of_append cong: option.case_cong)

lemma ev_group: "rmatch_k (Group j r) (p, xs, c) k =
    rmatch_k r (p, xs, c) (\<lambda>st'. k (cap_state j xs st'))"
  by (simp add: rmatch_k.simps cap_state_def)

lemma ev_cap_state:
  "cap_state j xs (p', ys, c') = (p', ys, (j, take (length xs - length ys) xs) # c')"
  by (simp add: cap_state_def)

lemma hd_rmatch:
  "(case rmatch r st of [] \<Rightarrow> a | st' # sts \<Rightarrow> b st')
     = (case rmatch_k r st Some of None \<Rightarrow> a | Some st' \<Rightarrow> b st')"
  by (cases "rmatch r st") (simp_all add: rmatch_k_first)

lemma ev_search_nil: "search r prev [] =
    (case rmatch_k r (prev, [], []) Some of None \<Rightarrow> None | Some st \<Rightarrow> Some (0, st))"
  by (simp add: hd_rmatch)

lemma ev_search_cons: "search r prev (c # cs) =
    (case rmatch_k r (prev, c # cs, []) Some of
       None \<Rightarrow> map_option (\<lambda>(k, st). (Suc k, st)) (search r (Some c) cs)
     | Some st \<Rightarrow> Some (0, st))"
  by (simp add: hd_rmatch)

lemma ev_replace_nil: "replace_from r rep prev [] =
    (case rmatch_k r (prev, [], []) Some of None \<Rightarrow> [] | Some st \<Rightarrow> rep)"
  by (simp add: hd_rmatch)

lemma ev_replace_cons: "replace_from r rep prev (c # cs) =
    (case rmatch_k r (prev, c # cs, []) Some of
       None \<Rightarrow> c # replace_from r rep (Some c) cs
     | Some st \<Rightarrow>
         if length (rest_of st) < length (c # cs)
         then rep @ replace_from r rep (fst st) (rest_of st)
         else rep @ c # replace_from r rep (Some c) cs)"
proof -
  have "replace_from r rep prev (c # cs) =
     (case rmatch r (prev, c # cs, []) of
        [] \<Rightarrow> c # replace_from r rep (Some c) cs
      | st # sts \<Rightarrow>
          if length (rest_of st) < length (c # cs)
          then rep @ replace_from r rep (fst st) (rest_of st)
          else rep @ c # replace_from r rep (Some c) cs)"
    by (auto split: list.splits)
  then show ?thesis by (simp only: hd_rmatch)
qed

declare search.simps [simp del] replace_from.simps [simp del]

lemmas ev = ev_eps ev_chr_nil ev_chr_cons ev_seq ev_alt ev_opt_seq ev_opt_chr_nil ev_opt_chr_cons
  ev_star_chr_nil ev_star_chr_cons ev_lazy_chr_nil ev_lazy_chr_cons ev_bol ev_eol_nil ev_eol_cons
  ev_wordb_nil ev_wordb_cons ev_look ev_group ev_cap_state ev_search_nil ev_search_cons ev_replace_nil
  ev_replace_cons

lemmas class_defs = is_line_term_def is_space_def is_digit_def is_alpha_def is_word_def
  is_dot_def is_any_def canon_def

lemmas regex_defs = chr_def chri_def ac_def notc_def Plus_def
  LazyPlus_def numsuf_def comma_semi_def ascii_def madda_def

lemmas strip_defs = stripHtml_def replace_all_def re_br_def re_tag_def re_sptab_def
  re_blank_def re_edges_def js_trim_def

lemmas parser_defs = extractFederal_def extractDifc_def extractAdgm_def extractProvisions_def
  fedArticlePattern_def fedChapterScan_def fedTitlePattern_def isArabic_def federalLanguage_def
  js_test_def js_match_def fedArticleAr_def fedArticleEn_def difcArticle_def adgmSection_def
  chapterAr_def chapterEn_def chapterDifc_def chapterAdgm_def chapterTail_def titleAr_def
  titleEn_def boldTag_def articleStep_def lastChapter_def provisionTitle_def bind_def grp_def
  js_str_def Let_def



section \<open>Evaluated samples\<close>

lemma extractFederal_html2: "extractFederal html2 = Inr
   [\<lparr>provision_ref = ascii ''art2'', p_chapter = None, p_section = ascii ''2'', title = [],
      content = ascii ''The first long text.'', language = ascii ''en''\<rparr>,
    \<lparr>provision_ref = ascii ''art2'', p_chapter = None, p_section = ascii ''2'', title = [],
      content = ascii ''shorter'', language = ascii ''en''\<rparr>,
    \<lparr>provision_ref = ascii ''art3'', p_chapter = None, p_section = ascii ''3'', title = [],
      content = ascii ''third one'', language = ascii ''en''\<rparr>]"
  by (simp add: html2_def parser_defs strip_defs regex_defs class_defs ev)

lemma extractFederal_htmlAr: "extractFederal htmlAr = Inr
   [\<lparr>provision_ref = ascii ''art1'', p_chapter = None, p_section = ascii ''1'', title = [],
      content = [1610, 1587, 1605, 1609, 32, 1607, 1584, 1575, 32, 1575, 1604, 1602, 1575, 1606, 1608, 1606],
      language = ascii ''ar''\<rparr>]"
  by (simp add: htmlAr_def parser_defs strip_defs regex_defs class_defs ev)

lemma extractFederal_html3: "extractFederal html3 = Inr
   [\<lparr>provision_ref = ascii ''art2'', p_chapter = None, p_section = ascii ''2'', title = [],
      content = ascii ''Long enough'', language = ascii ''en''\<rparr>]"
  by (simp add: html3_def parser_defs strip_defs regex_defs class_defs ev)

section \<open>The claims on the parsers\<close>

text \<open>
  C2. For every document produced by one of the three zone parsers, no two provisions
  share a \<open>provision_ref\<close>; of the provisions of the extraction pass that share one, the
  kept one has the longest content, and the first of several longest ones is kept. Each
  parser returns a document for every input.
\<close>

theorem C2_dedup_keeps_longest:
  "(\<exists>doc raw. parseFederalLawHtml html law = Inr doc \<and> extractFederal html = Inr raw
       \<and> provisions doc = dedupProvisions raw \<and> retained raw (provisions doc))
 \<and> (\<exists>doc raw. parseDifcLawHtml html law = Inr doc \<and> extractDifc html = Inr raw
       \<and> provisions doc = dedupProvisions raw \<and> retained raw (provisions doc))
 \<and> (\<exists>doc raw. parseAdgmRegulationHtml html law = Inr doc \<and> extractAdgm html = Inr raw
       \<and> provisions doc = dedupProvisions raw \<and> retained raw (provisions doc))"
proof (intro conjI)
  from extractFederal_result[of html] obtain raw where r: "extractFederal html = Inr raw" by blast
  from parseFederal_provisions[OF r, of law] obtain doc where
    "parseFederalLawHtml html law = Inr doc" "provisions doc = dedupProvisions raw" by blast
  with r dedupProvisions_retained[of raw]
  show "\<exists>doc raw. parseFederalLawHtml html law = Inr doc \<and> extractFederal html = Inr raw
       \<and> provisions doc = dedupProvisions raw \<and> retained raw (provisions doc)" by auto
next
  from extractDifc_result[of html] obtain raw where r: "extractDifc html = Inr raw" by blast
  from parseDifc_provisions[OF r, of law] obtain doc where
    "parseDifcLawHtml html law = Inr doc" "provisions doc = dedupProvisions raw" by blast
  with r dedupProvisions_retained[of raw]
  show "\<exists>doc raw. parseDifcLawHtml html law = Inr doc \<and> extractDifc html = Inr raw
       \<and> provisions doc = dedupProvisions raw \<and> retained raw (provisions doc)" by auto
next
  from extractAdgm_result[of html] obtain raw where r: "extractAdgm html = Inr raw" by blast
  from parseAdgm_provisions[OF r, of law] obtain doc where
    "parseAdgmRegulationHtml html law = Inr doc" "provisions doc = dedupProvisions raw" by blast
  with r dedupProvisions_retained[of raw]
  show "\<exists>doc raw. parseAdgmRegulationHtml html law = Inr doc \<and> extractAdgm html = Inr raw
       \<and> provisions doc = dedupProvisions raw \<and> retained raw (provisions doc)" by auto
qed

theorem C2_dedup_keeps_longest_witness:
  "\<exists>doc raw. parseFederalLawHtml html2 law0 = Inr doc \<and> extractFederal html2 = Inr raw
     \<and> map provision_ref raw = [ascii ''art2'', ascii ''art2'', ascii ''art3'']
     \<and> map content raw = [ascii ''The first long text.'', ascii ''shorter'', ascii ''third one'']
     \<and> map provision_ref (provisions doc) = [ascii ''art2'', ascii ''art3'']
     \<and> map content (provisions doc) = [ascii ''The first long text.'', ascii ''third one'']
     \<and> retained raw (provisions doc)"
proof -
  from C2_dedup_keeps_longest[of html2 law0] obtain doc raw where
    d: "parseFederalLawHtml html2 law0 = Inr doc" "extractFederal html2 = Inr raw"
       "provisions doc = dedupProvisions raw" "retained raw (provisions doc)" by blast
  from d(2) have raw: "raw = 
   [\<lparr>provision_ref = ascii ''art2'', p_chapter = None, p_section = ascii ''2'', title = [],
      content = ascii ''The first long text.'', language = ascii ''en''\<rparr>,
    \<lparr>provision_ref = ascii ''art2'', p_chapter = None, p_section = ascii ''2'', title = [],
      content = ascii ''shorter'', language = ascii ''en''\<rparr>,
    \<lparr>provision_ref = ascii ''art3'', p_chapter = None, p_section = ascii ''3'', title = [],
      content = ascii ''third one'', language = ascii ''en''\<rparr>]"
    by (simp add: extractFederal_html2)
  have f1: "map provision_ref (provisions doc) = [ascii ''art2'', ascii ''art3'']"
    and f2: "map content (provisions doc) = [ascii ''The first long text.'', ascii ''third one'']"
    unfolding d(3) raw by (simp_all add: dedupProvisions_def dedupStep_def ascii_def)
  have f3: "map provision_ref raw = [ascii ''art2'', ascii ''art2'', ascii ''art3'']"
    and f4: "map content raw = [ascii ''The first long text.'', ascii ''shorter'', ascii ''third one'']"
    unfolding raw by simp_all
  show ?thesis
    by (rule exI[of _ doc], rule exI[of _ raw], intro conjI) (fact d(1) d(2) d(4) f1 f2 f3 f4)+
qed

text \<open>
  C6. Every provision in a parser's output has a content of more than 5 and at most
  12000 code units: the contents pushed by the extraction pass are the normalized bodies
  of the matches that are longer than 5 code units, each cut to its first 12000 code
  units and nothing appended; a body of 5 code units or fewer pushes nothing.
\<close>

theorem C6_content_bounds:
  "(\<exists>doc raw. parseFederalLawHtml html law = Inr doc \<and> extractFederal html = Inr raw
       \<and> provisions doc = dedupProvisions raw \<and> pushedFrom (fedArticlePattern html) html raw
       \<and> (\<forall>p \<in> set (provisions doc). 5 < length (content p) \<and> length (content p) \<le> 12000))
 \<and> (\<exists>doc raw. parseDifcLawHtml html law = Inr doc \<and> extractDifc html = Inr raw
       \<and> provisions doc = dedupProvisions raw \<and> pushedFrom difcArticle html raw
       \<and> (\<forall>p \<in> set (provisions doc). 5 < length (content p) \<and> length (content p) \<le> 12000))
 \<and> (\<exists>doc raw. parseAdgmRegulationHtml html law = Inr doc \<and> extractAdgm html = Inr raw
       \<and> provisions doc = dedupProvisions raw \<and> pushedFrom adgmSection html raw
       \<and> (\<forall>p \<in> set (provisions doc). 5 < length (content p) \<and> length (content p) \<le> 12000))"
proof (intro conjI)
  from extractFederal_result[of html] obtain raw where
    r: "extractFederal html = Inr raw" "pushedFrom (fedArticlePattern html) html raw" by blast
  from parseFederal_provisions[OF r(1), of law] obtain doc where
    d: "parseFederalLawHtml html law = Inr doc" "provisions doc = dedupProvisions raw" by blast
  have "\<forall>p \<in> set (provisions doc). 5 < length (content p) \<and> length (content p) \<le> 12000"
    unfolding d(2) using pushedFrom_bounds[OF r(2)] by blast
  with r d
  show "\<exists>doc raw. parseFederalLawHtml html law = Inr doc \<and> extractFederal html = Inr raw
       \<and> provisions doc = dedupProvisions raw \<and> pushedFrom (fedArticlePattern html) html raw
       \<and> (\<forall>p \<in> set (provisions doc). 5 < length (content p) \<and> length (content p) \<le> 12000)"
    by blast
next
  from extractDifc_result[of html] obtain raw where
    r: "extractDifc html = Inr raw" "pushedFrom difcArticle html raw" by blast
  from parseDifc_provisions[OF r(1), of law] obtain doc where
    d: "parseDifcLawHtml html law = Inr doc" "provisions doc = dedupProvisions raw" by blast
  have "\<forall>p \<in> set (provisions doc). 5 < length (content p) \<and> length (content p) \<le> 12000"
    unfolding d(2) using pushedFrom_bounds[OF r(2)] by blast
  with r d
  show "\<exists>doc raw. parseDifcLawHtml html law = Inr doc \<and> extractDifc html = Inr raw
       \<and> provisions doc = dedupProvisions raw \<and> pushedFrom difcArticle html raw
       \<and> (\<forall>p \<in> set (provisions doc). 5 < length (content p) \<and> length (content p) \<le> 12000)"
    by blast
next
  from extractAdgm_result[of html] obtain raw where
    r: "extractAdgm html = Inr raw" "pushedFrom adgmSection html raw" by blast
  from parseAdgm_provisions[OF r(1), of law] obtain doc where
    d: "parseAdgmRegulationHtml html law = Inr doc" "provisions doc = dedupProvisions raw" by blast
  have "\<forall>p \<in> set (provisions doc). 5 < length (content p) \<and> length (content p) \<le> 12000"
    unfolding d(2) using pushedFrom_bounds[OF r(2)] by blast
  with r d
  show "\<exists>doc raw. parseAdgmRegulationHtml html law = Inr doc \<and> extractAdgm html = Inr raw
       \<and> provisions doc = dedupProvisions raw \<and> pushedFrom adgmSection html raw
       \<and> (\<forall>p \<in> set (provisions doc). 5 < length (content p) \<and> length (content p) \<le> 12000)"
    by blast
qed

theorem C6_content_bounds_witness:
  "\<exists>doc raw. parseFederalLawHtml html3 law0 = Inr doc \<and> extractFederal html3 = Inr raw
     \<and> pushedFrom (fedArticlePattern html3) html3 raw
     \<and> map provision_ref (provisions doc) = [ascii ''art2'']
     \<and> map content (provisions doc) = [ascii ''Long enough'']
     \<and> (\<forall>p \<in> set (provisions doc). 5 < length (content p) \<and> length (content p) \<le> 12000)"
proof -
  from C6_content_bounds[of html3 law0] obtain doc raw where
    d: "parseFederalLawHtml html3 law0 = Inr doc" "extractFederal html3 = Inr raw"
       "provisions doc = dedupProvisions raw" "pushedFrom (fedArticlePattern html3) html3 raw"
       "\<forall>p \<in> set (provisions doc). 5 < length (content p) \<and> length (content p) \<le> 12000"
    by blast
  from d(2) have raw: "raw =
   [\<lparr>provision_ref = ascii ''art2'', p_chapter = None, p_section = ascii ''2'', title = [],
      content = ascii ''Long enough'', language = ascii ''en''\<rparr>]"
    by (simp add: extractFederal_html3)
  have f1: "map provision_ref (provisions doc) = [ascii ''art2'']"
    and f2: "map content (provisions doc) = [ascii ''Long enough'']"
    unfolding d(3) raw by (simp_all add: dedupProvisions_def dedupStep_def)
  show ?thesis
    by (rule exI[of _ doc], rule exI[of _ raw], intro conjI) (fact d(1) d(2) d(4) d(5) f1 f2)+
qed

text \<open>
  C7. The federal parser gives a document the language \<open>ar\<close> exactly when the raw HTML
  contains the Arabic word for article, and \<open>en\<close> otherwise, and gives its provisions the
  same language; the DIFC and ADGM parsers always give \<open>en\<close>.
\<close>

theorem C7_language:
  "(\<exists>doc. parseFederalLawHtml html law = Inr doc
       \<and> d_language doc = (if contains madda html then ascii ''ar'' else ascii ''en'')
       \<and> (\<forall>p \<in> set (provisions doc). language p = d_language doc))
 \<and> (\<exists>doc. parseDifcLawHtml html law = Inr doc \<and> d_language doc = ascii ''en''
       \<and> (\<forall>p \<in> set (provisions doc). language p = ascii ''en''))
 \<and> (\<exists>doc. parseAdgmRegulationHtml html law = Inr doc \<and> d_language doc = ascii ''en''
       \<and> (\<forall>p \<in> set (provisions doc). language p = ascii ''en''))"
proof (intro conjI)
  from extractFederal_result[of html] obtain raw where
    r: "extractFederal html = Inr raw" "\<forall>p \<in> set raw. language p = federalLanguage html" by blast
  from parseFederal_provisions[OF r(1), of law] obtain doc where
    d: "parseFederalLawHtml html law = Inr doc" "provisions doc = dedupProvisions raw"
       "d_language doc = federalLanguage html" by blast
  have "\<forall>p \<in> set (provisions doc). language p = d_language doc"
    unfolding d(2,3) using r(2) dedupProvisions_subset[of raw] by blast
  moreover have "d_language doc = (if contains madda html then ascii ''ar'' else ascii ''en'')"
    unfolding d(3) federalLanguage_def isArabic_contains ..
  ultimately show "\<exists>doc. parseFederalLawHtml html law = Inr doc
       \<and> d_language doc = (if contains madda html then ascii ''ar'' else ascii ''en'')
       \<and> (\<forall>p \<in> set (provisions doc). language p = d_language doc)" using d(1) by blast
next
  from extractDifc_result[of html] obtain raw where
    r: "extractDifc html = Inr raw" "\<forall>p \<in> set raw. language p = ascii ''en''" by blast
  from parseDifc_provisions[OF r(1), of law] obtain doc where
    d: "parseDifcLawHtml html law = Inr doc" "provisions doc = dedupProvisions raw"
       "d_language doc = ascii ''en''" by blast
  have "\<forall>p \<in> set (provisions doc). language p = ascii ''en''"
    unfolding d(2) using r(2) dedupProvisions_subset[of raw] by blast
  with d show "\<exists>doc. parseDifcLawHtml html law = Inr doc \<and> d_language doc = ascii ''en''
       \<and> (\<forall>p \<in> set (provisions doc). language p = ascii ''en'')" by blast
next
  from extractAdgm_result[of html] obtain raw where
    r: "extractAdgm html = Inr raw" "\<forall>p \<in> set raw. language p = ascii ''en''" by blast
  from parseAdgm_provisions[OF r(1), of law] obtain doc where
    d: "parseAdgmRegulationHtml html law = Inr doc" "provisions doc = dedupProvisions raw"
       "d_language doc = ascii ''en''" by blast
  have "\<forall>p \<in> set (provisions doc). language p = ascii ''en''"
    unfolding d(2) using r(2) dedupProvisions_subset[of raw] by blast
  with d show "\<exists>doc. parseAdgmRegulationHtml html law = Inr doc \<and> d_language doc = ascii ''en''
       \<and> (\<forall>p \<in> set (provisions doc). language p = ascii ''en'')" by blast
qed


theorem C7_language_witness:
  "\<exists>doc. parseFederalLawHtml htmlAr law0 = Inr doc \<and> contains madda htmlAr
     \<and> d_language doc = ascii ''ar'' \<and> map language (provisions doc) = [ascii ''ar'']
     \<and> (\<forall>p \<in> set (provisions doc). language p = d_language doc)"
proof -
  have c: "contains madda htmlAr"
    unfolding contains_def htmlAr_def by (rule exI[of _ "[]"]) auto
  from C7_language[of htmlAr law0] c obtain doc where
    d: "parseFederalLawHtml htmlAr law0 = Inr doc" "d_language doc = ascii ''ar''"
       "\<forall>p \<in> set (provisions doc). language p = d_language doc" by auto
  from d(1) have "provisions doc = dedupProvisions
   [\<lparr>provision_ref = ascii ''art1'', p_chapter = None, p_section = ascii ''1'', title = [],
      content = [1610, 1587, 1605, 1609, 32, 1607, 1584, 1575, 32, 1575, 1604, 1602, 1575, 1606, 1608, 1606],
      language = ascii ''ar''\<rparr>]"
    by (auto simp: parseFederalLawHtml_def extractFederal_htmlAr bind_def)
  then have f: "map language (provisions doc) = [ascii ''ar'']"
    by (simp add: dedupProvisions_def dedupStep_def)
  show ?thesis
    by (rule exI[of _ doc], intro conjI) (fact d c f)+
qed



section \<open>The citation parser\<close>

lemma js_match_binds:
  "js_match r s = Some m \<Longrightarrow> binds j r \<Longrightarrow> map_of m j \<noteq> None"
proof -
  assume a: "js_match r s = Some m" and b: "binds j r"
  from a obtain k p rest where "search r None s = Some (k, (p, rest, m))"
    unfolding js_match_def by (auto split: prod.splits)
  from search_caps[OF this b] show ?thesis .
qed

lemma citation_shape:
  "binds 1 arabicPat" "binds 2 arabicPat" "binds 1 artFirstPat" "binds 2 artFirstPat"
  "binds 1 secFirstPat" "binds 2 secFirstPat" "binds 1 artLastPat" "binds 2 artLastPat"
  "binds 1 secLastPat" "binds 2 secLastPat" "binds 1 idBasedPat" "binds 2 idBasedPat"
  by (simp_all add: arabicPat_def artFirstPat_def secFirstPat_def artLastPat_def secLastPat_def
      idBasedPat_def)

lemma cite_defined:
  "map_of m d \<noteq> None \<Longrightarrow>
     cite m d a = Inr (Some \<lparr>documentRef = js_trim (js_str (map_of m d)), articleRef = map_of m a\<rparr>)"
  by (auto simp: cite_def grp_def bind_def js_str_def)

lemma parseCitation_firstMatch:
  "parseCitation c = Inr (Some (case firstMatch citationPatterns (js_trim c) of
       None \<Rightarrow> \<lparr>documentRef = js_trim c, articleRef = None\<rparr>
     | Some (i, m) \<Rightarrow> \<lparr>documentRef = js_trim (js_str (map_of m (if i < 3 then 2 else 1))),
                       articleRef = map_of m (if i < 3 then 1 else 2)\<rparr>))"
proof -
  let ?t = "js_trim c"
  note b = js_match_binds citation_shape
  show ?thesis
  proof (cases "js_match arabicPat ?t")
    case (Some m)
    with cite_defined[OF b(1)[OF Some b(3)], of 1] show ?thesis
      by (simp add: parseCitation_def citationPatterns_def)
  next
    case n1: None
    show ?thesis
    proof (cases "js_match artFirstPat ?t")
      case (Some m)
      with n1 cite_defined[OF b(1)[OF Some b(5)], of 1] show ?thesis
        by (simp add: parseCitation_def citationPatterns_def)
    next
      case n2: None
      show ?thesis
      proof (cases "js_match secFirstPat ?t")
        case (Some m)
        with n1 n2 cite_defined[OF b(1)[OF Some b(7)], of 1] show ?thesis
          by (simp add: parseCitation_def citationPatterns_def)
      next
        case n3: None
        show ?thesis
        proof (cases "js_match artLastPat ?t")
          case (Some m)
          with n1 n2 n3 cite_defined[OF b(1)[OF Some b(8)], of 2] show ?thesis
            by (simp add: parseCitation_def citationPatterns_def)
        next
          case n4: None
          show ?thesis
          proof (cases "js_match secLastPat ?t")
            case (Some m)
            with n1 n2 n3 n4 cite_defined[OF b(1)[OF Some b(10)], of 2] show ?thesis
              by (simp add: parseCitation_def citationPatterns_def)
          next
            case n5: None
            show ?thesis
            proof (cases "js_match idBasedPat ?t")
              case (Some m)
              with n1 n2 n3 n4 n5 cite_defined[OF b(1)[OF Some b(12)], of 2] show ?thesis
                by (simp add: parseCitation_def citationPatterns_def)
            next
              case None
              with n1 n2 n3 n4 n5 show ?thesis
                by (simp add: parseCitation_def citationPatterns_def)
            qed
          qed
        qed
      qed
    qed
  qed
qed

lemma firstMatch_from:
  "firstMatch rs s = Some (i, m) \<Longrightarrow> \<exists>r \<in> set rs. js_match r s = Some m"
proof (induction rs arbitrary: i)
  case Nil
  then show ?case by simp
next
  case (Cons r rs)
  show ?case
  proof (cases "js_match r s")
    case None
    with Cons.prems obtain i' where "firstMatch rs s = Some (i', m)" by auto
    from Cons.IH[OF this] show ?thesis by auto
  next
    case (Some m')
    with Cons.prems have "m' = m" by simp
    with Some show ?thesis by simp
  qed
qed

lemma firstMatch_groups:
  assumes "firstMatch citationPatterns s = Some (i, m)"
  shows "map_of m 1 \<noteq> None \<and> map_of m 2 \<noteq> None"
proof -
  from firstMatch_from[OF assms] obtain r where
    r: "r \<in> set citationPatterns" "js_match r s = Some m" by blast
  from r(1) have "binds 1 r \<and> binds 2 r"
    unfolding citationPatterns_def using citation_shape by auto
  with js_match_binds[OF r(2)] show ?thesis by blast
qed

text \<open>
  C4. The citation parser tries its six patterns in the fixed order Arabic, Article prefix,
  Section prefix, Article suffix, Section suffix, id-based, and its result comes from the
  first one that matches, whatever the later ones do: the document reference is the trimmed
  law group and the article reference the number group of that match, both of which took
  part in it. When no pattern matches, the result is the whole trimmed input with no
  article reference.
\<close>

theorem C4_first_pattern_wins:
  "parseCitation c = Inr (Some (case firstMatch citationPatterns (js_trim c) of
       None \<Rightarrow> \<lparr>documentRef = js_trim c, articleRef = None\<rparr>
     | Some (i, m) \<Rightarrow> \<lparr>documentRef = js_trim (js_str (map_of m (if i < 3 then 2 else 1))),
                       articleRef = map_of m (if i < 3 then 1 else 2)\<rparr>))
   \<and> (\<forall>i m. firstMatch citationPatterns (js_trim c) = Some (i, m)
          \<longrightarrow> map_of m 1 \<noteq> None \<and> map_of m 2 \<noteq> None)"
  using parseCitation_firstMatch[of c] firstMatch_groups[of "js_trim c"] by blast

text \<open>
  C10. \<open>parseCitation\<close> returns a parse for every input, never \<open>null\<close> and never an
  exception, so \<open>validateCitationTool\<close> is always its body behind the parse check: the
  branch that reports an unparsable citation is never taken.
\<close>

theorem C10_parse_total:
  "\<exists>parsed. parseCitation c = Inr (Some parsed)
      \<and> validateCitationTool db c = validateParsed db c parsed"
proof -
  from parseCitation_firstMatch[of c] obtain parsed where p: "parseCitation c = Inr (Some parsed)"
    by blast
  then have "validateCitationTool db c = validateParsed db c parsed"
    by (simp add: validateCitationTool_def bind_def)
  with p show ?thesis by blast
qed



lemmas cite_defs = js_match_def js_test_def arabicPat_def artFirstPat_def secFirstPat_def
  artLastPat_def secLastPat_def idBasedPat_def js_trim_def

lemma citeBoth_eval:
  "js_trim citeBoth = citeBoth"
  "js_match arabicPat citeBoth = None"
  "js_match artFirstPat citeBoth = Some [(2, ascii ''Law X, Article 3''), (1, ascii ''2'')]"
  "js_match artLastPat citeBoth = Some [(2, ascii ''3''), (1, ascii ''Article 2, Law X'')]"
  by (simp_all add: citeBoth_def cite_defs regex_defs class_defs ev)

lemma citeNone_eval:
  "js_trim citeNone = ascii ''Nonexistent Law 9999''"
  "firstMatch citationPatterns (ascii ''Nonexistent Law 9999'') = None"
  by (simp_all add: citeNone_def citationPatterns_def cite_defs regex_defs class_defs ev)

theorem C4_first_pattern_wins_witness:
  "parseCitation citeBoth
     = Inr (Some \<lparr>documentRef = ascii ''Law X, Article 3'', articleRef = Some (ascii ''2'')\<rparr>)
   \<and> js_match artLastPat (js_trim citeBoth) \<noteq> None
   \<and> parseCitation citeNone
     = Inr (Some \<lparr>documentRef = ascii ''Nonexistent Law 9999'', articleRef = None\<rparr>)"
proof -
  have "firstMatch citationPatterns (js_trim citeBoth)
          = Some (1, [(2, ascii ''Law X, Article 3''), (1, ascii ''2'')])"
    by (simp add: citationPatterns_def citeBoth_eval)
  with C4_first_pattern_wins[of citeBoth]
  have 1: "parseCitation citeBoth
     = Inr (Some \<lparr>documentRef = ascii ''Law X, Article 3'', articleRef = Some (ascii ''2'')\<rparr>)"
    by (simp add: js_str_def js_trim_def ascii_def is_space_def)
  have 2: "js_match artLastPat (js_trim citeBoth) \<noteq> None" by (simp add: citeBoth_eval)
  from C4_first_pattern_wins[of citeNone]
  have 3: "parseCitation citeNone
     = Inr (Some \<lparr>documentRef = ascii ''Nonexistent Law 9999'', articleRef = None\<rparr>)"
    by (simp add: citeNone_eval)
  from 1 2 3 show ?thesis by (intro conjI)
qed



section \<open>The citation formatter\<close>

lemma search_iff:
  "search r prev xs \<noteq> None \<longleftrightarrow>
     (\<exists>pre rest. xs = pre @ rest
        \<and> rmatch r (if pre = [] then prev else Some (last pre), rest, []) \<noteq> [])"
proof (induction xs arbitrary: prev)
  case Nil
  show ?case by (auto simp: search.simps split: list.splits)
next
  case (Cons c cs)
  show ?case
  proof (cases "rmatch r (prev, c # cs, [])")
    case (Cons st sts)
    then have "search r prev (c # cs) \<noteq> None" by (simp add: search.simps)
    moreover from Cons have "c # cs = [] @ (c # cs)
        \<and> rmatch r (if [] = [] then prev else Some (last []), c # cs, []) \<noteq> []" by simp
    ultimately show ?thesis by blast
  next
    case Nil
    have "search r prev (c # cs) \<noteq> None \<longleftrightarrow> search r (Some c) cs \<noteq> None"
      using Nil by (simp add: search.simps)
    also have "\<dots> \<longleftrightarrow> (\<exists>pre rest. cs = pre @ rest
        \<and> rmatch r (if pre = [] then Some c else Some (last pre), rest, []) \<noteq> [])"
      by (rule Cons.IH)
    also have "\<dots> \<longleftrightarrow> (\<exists>pre rest. c # cs = pre @ rest
        \<and> rmatch r (if pre = [] then prev else Some (last pre), rest, []) \<noteq> [])"
    proof
      assume "\<exists>pre rest. cs = pre @ rest
        \<and> rmatch r (if pre = [] then Some c else Some (last pre), rest, []) \<noteq> []"
      then obtain pre rest where pr: "cs = pre @ rest"
        "rmatch r (if pre = [] then Some c else Some (last pre), rest, []) \<noteq> []" by blast
      have "c # cs = (c # pre) @ rest" using pr(1) by simp
      moreover have "rmatch r (if c # pre = [] then prev else Some (last (c # pre)), rest, []) \<noteq> []"
        using pr(2) by (cases pre) simp_all
      ultimately show "\<exists>pre rest. c # cs = pre @ rest
        \<and> rmatch r (if pre = [] then prev else Some (last pre), rest, []) \<noteq> []" by blast
    next
      assume "\<exists>pre rest. c # cs = pre @ rest
        \<and> rmatch r (if pre = [] then prev else Some (last pre), rest, []) \<noteq> []"
      then obtain pre rest where pr: "c # cs = pre @ rest"
        "rmatch r (if pre = [] then prev else Some (last pre), rest, []) \<noteq> []" by blast
      show "\<exists>pre rest. cs = pre @ rest
        \<and> rmatch r (if pre = [] then Some c else Some (last pre), rest, []) \<noteq> []"
      proof (cases pre)
        case Nil
        with pr Nil \<open>rmatch r (prev, c # cs, []) = []\<close> show ?thesis by simp
      next
        case (Cons d pre')
        with pr(1) have e: "d = c" "cs = pre' @ rest" by simp_all
        have "rmatch r (if pre' = [] then Some c else Some (last pre'), rest, []) \<noteq> []"
          using pr(2) Cons e(1) by (cases pre') simp_all
        with e(2) show ?thesis by blast
      qed
    qed
    finally show ?thesis .
  qed
qed

text \<open>A literal under the \<open>i\<close> flag matches the texts that are equal to it up to case.\<close>

lemma rmatch_stri:
  "rmatch (stri w) (prev, xs, caps) =
     (if length w \<le> length xs \<and> map canon (take (length w) xs) = map canon w
      then [(if w = [] then prev else Some (last (take (length w) xs)), drop (length w) xs, caps)]
      else [])"
proof (induction w arbitrary: prev xs)
  case Nil
  show ?case by simp
next
  case (Cons a w)
  show ?case
  proof (cases xs)
    case Nil
    then show ?thesis by (simp add: chri_def)
  next
    case (Cons c cs)
    show ?thesis
    proof (cases "canon c = canon a")
      case False
      with Cons show ?thesis by (simp add: chri_def)
    next
      case True
      have "rmatch (stri (a # w)) (prev, xs, caps) = rmatch (stri w) (Some c, cs, caps)"
        using True Cons by (simp add: chri_def)
      also have "\<dots> = (if length w \<le> length cs \<and> map canon (take (length w) cs) = map canon w
          then [(if w = [] then Some c else Some (last (take (length w) cs)), drop (length w) cs, caps)]
          else [])" by (rule Cons.IH)
      also have "\<dots> = (if length (a # w) \<le> length xs
                \<and> map canon (take (length (a # w)) xs) = map canon (a # w)
          then [(if a # w = [] then prev else Some (last (take (length (a # w)) xs)),
                 drop (length (a # w)) xs, caps)]
          else [])"
        using True Cons by (cases w) auto
      finally show ?thesis .
    qed
  qed
qed



lemma canon_upper_word: "canon c = k \<Longrightarrow> 65 \<le> k \<Longrightarrow> k \<le> 90 \<Longrightarrow> is_word c"
  by (auto simp: canon_def is_word_def is_alpha_def split: if_splits)

lemma zone_token_shape:
  assumes "map canon tok = ascii ''DIFC'' \<or> map canon tok = ascii ''ADGM''"
  shows "length tok = 4" "is_word (hd tok)" "is_word (last tok)"
proof -
  from assms have "length (map canon tok) = 4" by (auto simp: ascii_def)
  then have len: "length tok = 4" by simp
  then obtain a b c d where t: "tok = [a, b, c, d]"
    by (auto simp: numeral_eq_Suc length_Suc_conv)
  from assms t have "(canon a = 68 \<or> canon a = 65) \<and> (canon d = 67 \<or> canon d = 77)"
    by (auto simp: ascii_def)
  then have "is_word a \<and> is_word d" by (auto intro: canon_upper_word)
  with t len show "length tok = 4" "is_word (hd tok)" "is_word (last tok)" by simp_all
qed

lemma canon_zone: "map canon (ascii ''DIFC'') = ascii ''DIFC''" "map canon (ascii ''ADGM'') = ascii ''ADGM''"
  by (simp_all add: ascii_def canon_def)

lemma zone_alt:
  "rmatch (Alt (stri (ascii ''DIFC'')) (stri (ascii ''ADGM''))) (prev, xs, caps) \<noteq> [] \<longleftrightarrow> zoneAt xs"
  "st' \<in> set (rmatch (Alt (stri (ascii ''DIFC'')) (stri (ascii ''ADGM''))) (prev, xs, caps))
     \<Longrightarrow> st' = (Some (last (take 4 xs)), drop 4 xs, caps)"
proof -
  have l: "length (ascii ''DIFC'') = 4" "length (ascii ''ADGM'') = 4"
    "ascii ''DIFC'' \<noteq> []" "ascii ''ADGM'' \<noteq> []" by (simp_all add: ascii_def)
  show "rmatch (Alt (stri (ascii ''DIFC'')) (stri (ascii ''ADGM''))) (prev, xs, caps) \<noteq> [] \<longleftrightarrow> zoneAt xs"
    by (auto simp: rmatch_stri l canon_zone zoneAt_def)
  show "st' \<in> set (rmatch (Alt (stri (ascii ''DIFC'')) (stri (ascii ''ADGM''))) (prev, xs, caps))
     \<Longrightarrow> st' = (Some (last (take 4 xs)), drop 4 xs, caps)"
    by (auto simp: rmatch_stri l canon_zone split: if_splits)
qed

lemma rmatch_seq_ne:
  "rmatch (Seq r1 r2) st \<noteq> [] \<longleftrightarrow> (\<exists>mid \<in> set (rmatch r1 st). rmatch r2 mid \<noteq> [])"
  by auto

lemma ne_mem: "xs \<noteq> [] \<longleftrightarrow> (\<exists>x. x \<in> set xs)"
  by (cases xs) auto

lemma rmatch_seq_eps: "rmatch (Seq r Eps) st \<noteq> [] \<longleftrightarrow> rmatch r st \<noteq> []"
  by (cases "rmatch r st") auto

lemma rmatch_wordb:
  "rmatch WordB (p, xs, c) \<noteq> [] \<longleftrightarrow> at_word p \<noteq> (xs \<noteq> [] \<and> is_word (hd xs))"
  "s \<in> set (rmatch WordB (p, xs, c)) \<Longrightarrow> s = (p, xs, c)"
  by (cases xs; auto split: if_splits)+

lemma zoneAt_word:
  assumes "zoneAt xs"
  shows "xs \<noteq> []" "is_word (hd xs)" "is_word (last (take 4 xs))"
proof -
  from assms have z: "4 \<le> length xs"
    "map canon (take 4 xs) = ascii ''DIFC'' \<or> map canon (take 4 xs) = ascii ''ADGM''"
    by (simp_all add: zoneAt_def)
  from z(1) show ne: "xs \<noteq> []" by auto
  from z(1) have "take 4 xs \<noteq> []" by auto
  then have "hd (take 4 xs) = hd xs" using ne by (cases xs) (simp_all add: numeral_eq_Suc)
  with zone_token_shape(2)[OF z(2)] show "is_word (hd xs)" by simp
  from zone_token_shape(3)[OF z(2)] show "is_word (last (take 4 xs))" .
qed

lemma difc_at:
  "rmatch difcAdgmPat (prev, xs, []) \<noteq> [] \<longleftrightarrow>
     \<not> at_word prev \<and> zoneAt xs \<and> (drop 4 xs = [] \<or> \<not> is_word (hd (drop 4 xs)))"
proof -
  let ?A = "Alt (stri (ascii ''DIFC'')) (stri (ascii ''ADGM''))"
  have unf: "rmatch difcAdgmPat (prev, xs, []) \<noteq> [] \<longleftrightarrow>
      (\<exists>s1 \<in> set (rmatch WordB (prev, xs, [])). \<exists>s2 \<in> set (rmatch ?A s1). rmatch WordB s2 \<noteq> [])"
  proof -
    have e: "(\<exists>mid \<in> set (rmatch WordB s). rmatch Eps mid \<noteq> []) \<longleftrightarrow> rmatch WordB s \<noteq> []" for s
      using rmatch_seq_ne[of WordB Eps s] rmatch_seq_eps[of WordB s] by simp
    show ?thesis by (simp only: difcAdgmPat_def seqs.simps rmatch_seq_ne e)
  qed
  show ?thesis
  proof
    assume "rmatch difcAdgmPat (prev, xs, []) \<noteq> []"
    with unf obtain s1 s2 where s: "s1 \<in> set (rmatch WordB (prev, xs, []))"
      "s2 \<in> set (rmatch ?A s1)" "rmatch WordB s2 \<noteq> []" by blast
    from rmatch_wordb(2)[OF s(1)] have s1: "s1 = (prev, xs, [])" .
    from s(1) have "rmatch WordB (prev, xs, []) \<noteq> []"
      using ne_mem[of "rmatch WordB (prev, xs, [])"] by blast
    then have b1: "at_word prev \<noteq> (xs \<noteq> [] \<and> is_word (hd xs))"
      using rmatch_wordb(1)[of prev xs "[]"] by blast
    from s(2) have "rmatch ?A (prev, xs, []) \<noteq> []"
      unfolding s1 using ne_mem[of "rmatch ?A (prev, xs, [])"] by blast
    then have z: "zoneAt xs" using zone_alt(1)[of prev xs "[]"] by blast
    from s(2) have s2: "s2 = (Some (last (take 4 xs)), drop 4 xs, [])"
      unfolding s1 by (rule zone_alt(2))
    from b1 zoneAt_word[OF z] have n: "\<not> at_word prev" by simp
    from s(3) have "at_word (Some (last (take 4 xs))) \<noteq> (drop 4 xs \<noteq> [] \<and> is_word (hd (drop 4 xs)))"
      unfolding s2 using rmatch_wordb(1)[of "Some (last (take 4 xs))" "drop 4 xs" "[]"] by blast
    with zoneAt_word(3)[OF z] have e: "drop 4 xs = [] \<or> \<not> is_word (hd (drop 4 xs))" by simp
    from n z e show "\<not> at_word prev \<and> zoneAt xs \<and> (drop 4 xs = [] \<or> \<not> is_word (hd (drop 4 xs)))"
      by (intro conjI)
  next
    assume a: "\<not> at_word prev \<and> zoneAt xs \<and> (drop 4 xs = [] \<or> \<not> is_word (hd (drop 4 xs)))"
    then have z: "zoneAt xs" and n: "\<not> at_word prev"
      and e: "drop 4 xs = [] \<or> \<not> is_word (hd (drop 4 xs))" by simp_all
    from n zoneAt_word[OF z] have "at_word prev \<noteq> (xs \<noteq> [] \<and> is_word (hd xs))" by simp
    then have "rmatch WordB (prev, xs, []) \<noteq> []"
      using rmatch_wordb(1)[of prev xs "[]"] by blast
    then obtain s1 where s1: "s1 \<in> set (rmatch WordB (prev, xs, []))"
      using ne_mem[of "rmatch WordB (prev, xs, [])"] by blast
    from rmatch_wordb(2)[OF s1] have s1e: "s1 = (prev, xs, [])" .
    from z have "rmatch ?A (prev, xs, []) \<noteq> []" using zone_alt(1)[of prev xs "[]"] by blast
    then obtain s2 where s2: "s2 \<in> set (rmatch ?A (prev, xs, []))"
      using ne_mem[of "rmatch ?A (prev, xs, [])"] by blast
    from zone_alt(2)[OF s2] have s2e: "s2 = (Some (last (take 4 xs)), drop 4 xs, [])" .
    from e zoneAt_word(3)[OF z]
    have "at_word (Some (last (take 4 xs))) \<noteq> (drop 4 xs \<noteq> [] \<and> is_word (hd (drop 4 xs)))"
      by auto
    then have "rmatch WordB s2 \<noteq> []"
      unfolding s2e using rmatch_wordb(1)[of "Some (last (take 4 xs))" "drop 4 xs" "[]"] by blast
    with s1 s2 s1e have "\<exists>s1 \<in> set (rmatch WordB (prev, xs, [])). \<exists>s2 \<in> set (rmatch ?A s1). rmatch WordB s2 \<noteq> []"
      by blast
    with unf show "rmatch difcAdgmPat (prev, xs, []) \<noteq> []" by simp
  qed
qed

lemma zoneAt_split:
  "zoneAt xs \<and> (drop 4 xs = [] \<or> \<not> is_word (hd (drop 4 xs))) \<longleftrightarrow>
     (\<exists>tok post. xs = tok @ post
        \<and> (map canon tok = ascii ''DIFC'' \<or> map canon tok = ascii ''ADGM'')
        \<and> (post = [] \<or> \<not> is_word (hd post)))"
proof
  assume a: "zoneAt xs \<and> (drop 4 xs = [] \<or> \<not> is_word (hd (drop 4 xs)))"
  then have "xs = take 4 xs @ drop 4 xs" by simp
  with a show "\<exists>tok post. xs = tok @ post
        \<and> (map canon tok = ascii ''DIFC'' \<or> map canon tok = ascii ''ADGM'')
        \<and> (post = [] \<or> \<not> is_word (hd post))"
    unfolding zoneAt_def by blast
next
  assume "\<exists>tok post. xs = tok @ post
        \<and> (map canon tok = ascii ''DIFC'' \<or> map canon tok = ascii ''ADGM'')
        \<and> (post = [] \<or> \<not> is_word (hd post))"
  then obtain tok post where t: "xs = tok @ post"
    "map canon tok = ascii ''DIFC'' \<or> map canon tok = ascii ''ADGM''"
    "post = [] \<or> \<not> is_word (hd post)" by blast
  from zone_token_shape(1)[OF t(2)] t(1) have "take 4 xs = tok" "drop 4 xs = post" "4 \<le> length xs"
    by simp_all
  with t show "zoneAt xs \<and> (drop 4 xs = [] \<or> \<not> is_word (hd (drop 4 xs)))"
    unfolding zoneAt_def by simp
qed

lemma difc_at_token:
  "rmatch difcAdgmPat (if pre = [] then None else Some (last pre), rest, []) \<noteq> [] \<longleftrightarrow>
     (pre = [] \<or> \<not> is_word (last pre))
     \<and> (\<exists>tok post. rest = tok @ post
        \<and> (map canon tok = ascii ''DIFC'' \<or> map canon tok = ascii ''ADGM'')
        \<and> (post = [] \<or> \<not> is_word (hd post)))"
proof -
  let ?P = "if pre = [] then None else Some (last pre)"
  have "rmatch difcAdgmPat (?P, rest, []) \<noteq> [] \<longleftrightarrow>
      \<not> at_word ?P \<and> (zoneAt rest \<and> (drop 4 rest = [] \<or> \<not> is_word (hd (drop 4 rest))))"
    using difc_at[of ?P rest] by blast
  also have "\<dots> \<longleftrightarrow> \<not> at_word ?P \<and> (\<exists>tok post. rest = tok @ post
        \<and> (map canon tok = ascii ''DIFC'' \<or> map canon tok = ascii ''ADGM'')
        \<and> (post = [] \<or> \<not> is_word (hd post)))"
    by (simp only: zoneAt_split)
  also have "\<dots> \<longleftrightarrow> (pre = [] \<or> \<not> is_word (last pre)) \<and> (\<exists>tok post. rest = tok @ post
        \<and> (map canon tok = ascii ''DIFC'' \<or> map canon tok = ascii ''ADGM'')
        \<and> (post = [] \<or> \<not> is_word (hd post)))"
    by (cases pre) simp_all
  finally show ?thesis .
qed

lemma isDifcAdgm_token: "js_test difcAdgmPat law \<longleftrightarrow> hasZoneToken law"
proof -
  have "js_test difcAdgmPat law \<longleftrightarrow>
     (\<exists>pre rest. law = pre @ rest
        \<and> rmatch difcAdgmPat (if pre = [] then None else Some (last pre), rest, []) \<noteq> [])"
    unfolding js_test_def by (rule search_iff)
  also have "\<dots> \<longleftrightarrow> (\<exists>pre rest. law = pre @ rest
        \<and> (pre = [] \<or> \<not> is_word (last pre))
        \<and> (\<exists>tok post. rest = tok @ post
        \<and> (map canon tok = ascii ''DIFC'' \<or> map canon tok = ascii ''ADGM'')
        \<and> (post = [] \<or> \<not> is_word (hd post))))"
    by (simp only: difc_at_token)
  also have "\<dots> \<longleftrightarrow> hasZoneToken law"
  proof
    assume "\<exists>pre rest. law = pre @ rest
        \<and> (pre = [] \<or> \<not> is_word (last pre))
        \<and> (\<exists>tok post. rest = tok @ post
        \<and> (map canon tok = ascii ''DIFC'' \<or> map canon tok = ascii ''ADGM'')
        \<and> (post = [] \<or> \<not> is_word (hd post)))"
    then obtain pre rest tok post where "law = pre @ rest" "pre = [] \<or> \<not> is_word (last pre)"
      "rest = tok @ post" "map canon tok = ascii ''DIFC'' \<or> map canon tok = ascii ''ADGM''"
      "post = [] \<or> \<not> is_word (hd post)" by blast
    then have "law = pre @ tok @ post
        \<and> (map canon tok = ascii ''DIFC'' \<or> map canon tok = ascii ''ADGM'')
        \<and> (pre = [] \<or> \<not> is_word (last pre))
        \<and> (post = [] \<or> \<not> is_word (hd post))" by simp
    then show "hasZoneToken law" unfolding hasZoneToken_def by blast
  next
    assume "hasZoneToken law"
    then obtain pre tok post where h: "law = pre @ tok @ post"
        "map canon tok = ascii ''DIFC'' \<or> map canon tok = ascii ''ADGM''"
        "pre = [] \<or> \<not> is_word (last pre)"
        "post = [] \<or> \<not> is_word (hd post)" unfolding hasZoneToken_def by blast
    have "law = pre @ (tok @ post) \<and> (pre = [] \<or> \<not> is_word (last pre))
        \<and> (\<exists>tok' post'. tok @ post = tok' @ post'
        \<and> (map canon tok' = ascii ''DIFC'' \<or> map canon tok' = ascii ''ADGM'')
        \<and> (post' = [] \<or> \<not> is_word (hd post')))"
      using h by blast
    then show "\<exists>pre rest. law = pre @ rest
        \<and> (pre = [] \<or> \<not> is_word (last pre))
        \<and> (\<exists>tok post. rest = tok @ post
        \<and> (map canon tok = ascii ''DIFC'' \<or> map canon tok = ascii ''ADGM'')
        \<and> (post = [] \<or> \<not> is_word (hd post)))" by blast
  qed
  finally show ?thesis .
qed



lemmas format_defs = citedArticle_def citedLaw_def opt_grp_def or_else_def fmtArtFirst_def
  fmtArtLast_def difcAdgmPat_def

lemma citeFederal_eval:
  "js_trim citeFederal = citeFederal"
  "citedArticle citeFederal = Some (ascii ''2'')"
  "citedLaw citeFederal = ascii ''Federal Decree-Law No. 45 of 2021''"
  "js_test difcAdgmPat (ascii ''Federal Decree-Law No. 45 of 2021'') = False"
  by (simp_all add: citeFederal_def format_defs cite_defs regex_defs class_defs ev)

lemma citeDifc_eval:
  "js_trim citeDifc = citeDifc"
  "citedArticle citeDifc = Some (ascii ''1'')"
  "citedLaw citeDifc = ascii ''DIFC Law No. 5 of 2020 (Data Protection)''"
  "js_test difcAdgmPat (ascii ''DIFC Law No. 5 of 2020 (Data Protection)'') = True"
  by (simp_all add: citeDifc_def format_defs cite_defs regex_defs class_defs ev)

text \<open>
  C9. \<open>formatCitationTool\<close> takes its numbering words from the law text alone: when the
  citation has an article number, every format uses \<open>Section\<close> (full) or \<open>s\<close> (short,
  pinpoint) if the law text contains the token \<open>DIFC\<close> or \<open>ADGM\<close> in any letter case, and
  \<open>Article\<close> or \<open>Art.\<close> otherwise. The pinpoint format of
  \<open>Article 2, Federal Decree-Law No. 45 of 2021\<close> is exactly \<open>Art. 2\<close>.
\<close>

theorem C9_zone_vocabulary:
  "(\<forall>a. citedArticle (js_trim (fi_citation input)) = Some a \<longrightarrow>
      formatted (formatCitationTool input) =
        (let law = citedLaw (js_trim (fi_citation input));
             word = (if hasZoneToken law then ascii ''Section'' else ascii ''Article'');
             abbrev = (if hasZoneToken law then ascii ''s'' else ascii ''Art.'')
         in case fi_format input of
              None \<Rightarrow> word @ ascii '' '' @ a @ ascii '', '' @ law
            | Some Full \<Rightarrow> word @ ascii '' '' @ a @ ascii '', '' @ law
            | Some Short \<Rightarrow> abbrev @ ascii '' '' @ a @ ascii '', ''
                            @ js_trim (takeWhile (\<lambda>c. c \<noteq> of_char CHR ''('') law)
            | Some Pinpoint \<Rightarrow> abbrev @ ascii '' '' @ a))
   \<and> formatted (formatCitationTool \<lparr>fi_citation = citeFederal, fi_format = Some Pinpoint\<rparr>)
       = ascii ''Art. 2''"
proof
  show "\<forall>a. citedArticle (js_trim (fi_citation input)) = Some a \<longrightarrow>
      formatted (formatCitationTool input) =
        (let law = citedLaw (js_trim (fi_citation input));
             word = (if hasZoneToken law then ascii ''Section'' else ascii ''Article'');
             abbrev = (if hasZoneToken law then ascii ''s'' else ascii ''Art.'')
         in case fi_format input of
              None \<Rightarrow> word @ ascii '' '' @ a @ ascii '', '' @ law
            | Some Full \<Rightarrow> word @ ascii '' '' @ a @ ascii '', '' @ law
            | Some Short \<Rightarrow> abbrev @ ascii '' '' @ a @ ascii '', ''
                            @ js_trim (takeWhile (\<lambda>c. c \<noteq> of_char CHR ''('') law)
            | Some Pinpoint \<Rightarrow> abbrev @ ascii '' '' @ a)"
    by (auto simp: formatCitationTool_def Let_def isDifcAdgm_token
        split: option.splits cite_format.splits)
  show "formatted (formatCitationTool \<lparr>fi_citation = citeFederal, fi_format = Some Pinpoint\<rparr>)
       = ascii ''Art. 2''"
    by (simp add: formatCitationTool_def Let_def citeFederal_eval) (simp add: ascii_def)
qed

theorem C9_zone_vocabulary_witness:
  "citedArticle (js_trim citeDifc) = Some (ascii ''1'')
   \<and> hasZoneToken (citedLaw (js_trim citeDifc))
   \<and> formatted (formatCitationTool \<lparr>fi_citation = citeDifc, fi_format = Some Short\<rparr>)
       = ascii ''s 1, DIFC Law No. 5 of 2020''
   \<and> formatted (formatCitationTool \<lparr>fi_citation = citeDifc, fi_format = None\<rparr>)
       = ascii ''Section 1, DIFC Law No. 5 of 2020 (Data Protection)''"
proof -
  have a: "citedArticle (js_trim citeDifc) = Some (ascii ''1'')" by (simp add: citeDifc_eval)
  have z: "hasZoneToken (citedLaw (js_trim citeDifc))"
    unfolding isDifcAdgm_token[symmetric] by (simp add: citeDifc_eval)
  have t: "js_trim (takeWhile (\<lambda>c. c \<noteq> of_char CHR ''('') (ascii ''DIFC Law No. 5 of 2020 (Data Protection)''))
      = ascii ''DIFC Law No. 5 of 2020''"
    by (simp add: js_trim_def ascii_def is_space_def)
  from C9_zone_vocabulary[of "\<lparr>fi_citation = citeDifc, fi_format = Some Short\<rparr>"] a z
  have 1: "formatted (formatCitationTool \<lparr>fi_citation = citeDifc, fi_format = Some Short\<rparr>)
       = ascii ''s 1, DIFC Law No. 5 of 2020''"
    by (simp add: Let_def citeDifc_eval t) (simp add: ascii_def js_trim_def is_space_def)
  from C9_zone_vocabulary[of "\<lparr>fi_citation = citeDifc, fi_format = None\<rparr>"] a z
  have 2: "formatted (formatCitationTool \<lparr>fi_citation = citeDifc, fi_format = None\<rparr>)
       = ascii ''Section 1, DIFC Law No. 5 of 2020 (Data Protection)''"
    by (simp add: Let_def citeDifc_eval) (simp add: ascii_def)
  from a z 1 2 show ?thesis by (intro conjI)
qed



section \<open>The resolver\<close>
























section \<open>The citation validator\<close>
















section \<open>Provision numbers\<close>
































section \<open>The text normalizer on plain text\<close>








lemma star_none:
  "xs = [] \<or> \<not> P (hd xs) \<Longrightarrow> rmatch (Star (Chr P)) (prev, xs, caps) = [(prev, xs, caps)]"
  by (cases xs) (simp_all add: rmatch_star)















end
